theory Spec2Isabelle
  imports Complex_Main "HOL-Library.Multiset"
begin

section \<open>JavaScript values used by the dispatcher\<close>

text \<open>
  The program is TypeScript. Its \<open>number\<close>s are modelled as exact reals: the rounding of
  doubles, overflow and the exponent notation that \<open>Number.prototype.toString\<close> switches to
  at \<open>1e21\<close> are outside the model. Division by zero, which yields \<open>Infinity\<close> or \<open>NaN\<close>
  in JavaScript and \<open>0\<close> in HOL, is written out.
\<close>

datatype jsnum = Num real | PosInf | NegInf | NaN

text \<open>\<open>x / y\<close> on finite operands.\<close>

definition js_div :: "real \<Rightarrow> real \<Rightarrow> jsnum" where
  "js_div x y =
     (if y \<noteq> 0 then Num (x / y)
      else if 0 < x then PosInf
      else if x < 0 then NegInf
      else NaN)"

text \<open>\<open>Math.round\<close>: the nearest integer, a tie going up.\<close>

definition js_round :: "real \<Rightarrow> int" where
  "js_round x = \<lfloor>x + 1 / 2\<rfloor>"

text \<open>\<open>x % y\<close> on numbers: the remainder takes the sign of the dividend.\<close>

definition js_rem :: "real \<Rightarrow> real \<Rightarrow> real" where
  "js_rem x y = x - y * of_int (if 0 \<le> x / y then \<lfloor>x / y\<rfloor> else \<lceil>x / y\<rceil>)"

text \<open>\<open>n.toString()\<close> for an integer \<open>n\<close>: its decimal digits, with a sign when negative.\<close>

definition digit_char :: "nat \<Rightarrow> char" where
  "digit_char d = ''0123456789'' ! d"

fun nat_toString :: "nat \<Rightarrow> string" where
  "nat_toString n =
     (if n < 10 then [digit_char n] else nat_toString (n div 10) @ [digit_char (n mod 10)])"

declare nat_toString.simps [simp del]

definition toString :: "int \<Rightarrow> string" where
  "toString i = (if i < 0 then CHR ''-'' # nat_toString (nat (- i)) else nat_toString (nat i))"

text \<open>\<open>s.padStart(n, c)\<close> for a one-character pad string \<open>c\<close>.\<close>

definition padStart :: "nat \<Rightarrow> char \<Rightarrow> string \<Rightarrow> string" where
  "padStart n c s = replicate (n - length s) c @ s"

text \<open>\<open>parts.join(sep)\<close>.\<close>

fun join :: "string \<Rightarrow> string list \<Rightarrow> string" where
  "join sep [] = []"
| "join sep [s] = s"
| "join sep (s # t # ss) = s @ sep @ join sep (t # ss)"


section \<open>The progress estimator (class Timer)\<close>

record EMAConfig =
  alpha :: real
  ema :: real
  startTime :: real
  totalItems :: int
  itemsProcessed :: int

text \<open>
  \<open>formatETA(time)\<close>. The fields are computed on \<open>delta = Math.abs(time) / 1000\<close>, which is
  never negative, so \<open>%\<close> on the floors is \<open>mod\<close>.
\<close>

definition eta_days :: "real \<Rightarrow> int" where
  "eta_days time = \<lfloor>\<bar>time\<bar> / 1000 / 86400\<rfloor>"

text \<open>\<open>delta\<close> after \<open>delta -= days * 86400\<close>.\<close>

definition delta_days :: "real \<Rightarrow> real" where
  "delta_days time = \<bar>time\<bar> / 1000 - of_int (eta_days time) * 86400"

definition eta_hours :: "real \<Rightarrow> int" where
  "eta_hours time = \<lfloor>delta_days time / 3600\<rfloor> mod 24"

text \<open>\<open>delta\<close> after \<open>delta -= hours * 3600\<close>.\<close>

definition delta_hours :: "real \<Rightarrow> real" where
  "delta_hours time = delta_days time - of_int (eta_hours time) * 3600"

definition eta_minutes :: "real \<Rightarrow> int" where
  "eta_minutes time = \<lfloor>delta_hours time / 60\<rfloor> mod 60"

text \<open>
  \<open>delta\<close> after \<open>delta -= minutes * 60\<close>: the seconds left over once days, hours and
  minutes are taken out.
\<close>

definition eta_residual :: "real \<Rightarrow> real" where
  "eta_residual time = delta_hours time - of_int (eta_minutes time) * 60"

definition eta_seconds :: "real \<Rightarrow> int" where
  "eta_seconds time = js_round (js_rem (eta_residual time) 60)"

definition formatETA_finite :: "real \<Rightarrow> string" where
  "formatETA_finite time =
     join '':''
       [padStart 3 CHR ''0'' (toString (eta_days time)),
        padStart 2 CHR ''0'' (toString (eta_hours time)),
        padStart 2 CHR ''0'' (toString (eta_minutes time)),
        padStart 2 CHR ''0'' (toString (eta_seconds time))]"

text \<open>
  On \<open>\<plusminus>Infinity\<close> the days are \<open>Infinity\<close> and every later field is \<open>NaN\<close>
  (\<open>Infinity - Infinity\<close>); on \<open>NaN\<close> all four are. \<open>padStart\<close> leaves both words as
  they are.
\<close>

fun formatETA :: "jsnum \<Rightarrow> string" where
  "formatETA (Num time) = formatETA_finite time"
| "formatETA PosInf = ''Infinity:NaN:NaN:NaN''"
| "formatETA NegInf = ''Infinity:NaN:NaN:NaN''"
| "formatETA NaN = ''NaN:NaN:NaN:NaN''"

text \<open>
  What \<open>tick\<close> returns. The \<open>elapsed\<close> field, an ISO time of day cut out of
  \<open>new Date(now - startTime)\<close>, plays no part below and is left out.
\<close>

record display =
  eta :: string
  remaining :: string

text \<open>
  \<open>tick(itemStartTime, scaleFactor)\<close>. \<open>now\<close> is what \<open>Date.now()\<close> returns when the item's
  duration is taken; the configuration is mutated, so it is returned updated.
\<close>

definition tick :: "EMAConfig \<Rightarrow> real \<Rightarrow> real \<Rightarrow> real \<Rightarrow> EMAConfig \<times> display" where
  "tick config now itemStartTime scaleFactor =
     (let processed = itemsProcessed config + 1;
          itemElapsedTime = now - itemStartTime;
          ema' = (if ema config = 0 then itemElapsedTime
                  else alpha config * itemElapsedTime + (1 - alpha config) * ema config);
          remainingItems = totalItems config - processed;
          eta = js_div (ema' * of_int remainingItems) scaleFactor;
          etaDisplay = formatETA eta;
          remainingDisplay =
            padStart (length (toString (totalItems config))) CHR '' '' (toString processed)
              @ ''/'' @ toString (totalItems config)
      in (config\<lparr>itemsProcessed := processed, ema := ema'\<rparr>,
          \<lparr>eta = etaDisplay, remaining = remainingDisplay\<rparr>))"

text \<open>The estimator as \<open>run\<close> builds it.\<close>

definition new_timer :: "real \<Rightarrow> int \<Rightarrow> EMAConfig" where
  "new_timer now n =
     \<lparr>alpha = 18 / 100, ema = 0, startTime = now, totalItems = n, itemsProcessed = 0\<rparr>"

text \<open>
  A call of \<open>tick\<close> is given by the clock reading, the item's start time and the scale
  factor; its duration is the difference of the first two.
\<close>

type_synonym tick_call = "real \<times> real \<times> real"

definition call_duration :: "tick_call \<Rightarrow> real" where
  "call_duration c = (case c of (now, itemStartTime, scaleFactor) \<Rightarrow> now - itemStartTime)"

definition tick_state :: "EMAConfig \<Rightarrow> tick_call \<Rightarrow> EMAConfig" where
  "tick_state config c =
     (case c of (now, itemStartTime, scaleFactor) \<Rightarrow> fst (tick config now itemStartTime scaleFactor))"

definition ticks :: "EMAConfig \<Rightarrow> tick_call list \<Rightarrow> EMAConfig" where
  "ticks config cs = foldl tick_state config cs"

text \<open>
  The recurrence in the specification's words: \<open>ema\<^sub>1 = d\<^sub>1\<close> and
  \<open>ema\<^sub>i = alpha * d\<^sub>i + (1 - alpha) * ema\<^sub>i\<^sub>-\<^sub>1\<close>, over the durations \<open>d\<^sub>1 ... d\<^sub>k\<close> held in
  a list. It says nothing for \<open>i = 0\<close>, where the value is taken as \<open>0\<close>.
\<close>

fun spec_ema :: "real \<Rightarrow> real list \<Rightarrow> nat \<Rightarrow> real" where
  "spec_ema a ds 0 = 0"
| "spec_ema a ds (Suc 0) = ds ! 0"
| "spec_ema a ds (Suc (Suc i)) = a * ds ! Suc i + (1 - a) * spec_ema a ds (Suc i)"


section \<open>Library operations used by the dispatcher\<close>

text \<open>
  lodash's \<open>_.chunk(array, size)\<close>: slices of length \<open>size\<close> in order, the last one holding
  what is left; the empty list when the array is empty or \<open>size\<close> is below 1 (lodash tests
  this before it divides the length by the size).
\<close>

function chunk :: "'a list \<Rightarrow> nat \<Rightarrow> 'a list list" where
  "chunk xs n = (if xs = [] \<or> n < 1 then [] else take n xs # chunk (drop n xs) n)"
  by pat_completeness auto
termination
  by (relation "measure (\<lambda>(xs, n). length xs)") auto

declare chunk.simps [simp del]

text \<open>
  \<open>Promise.all\<close> over tasks that run concurrently on one thread: every task is a sequence of
  steps, and the steps of different tasks interleave in an order the program does not
  control. A schedule names, step by step, the task that moves next; a task that has
  finished (or a number that names none) is passed over, and when the schedule ends the
  tasks left run to their end in order. Every interleaving is the result of some schedule.
\<close>

fun merge_by :: "nat list \<Rightarrow> 'a list list \<Rightarrow> 'a list" where
  "merge_by [] ts = concat ts"
| "merge_by (i # sched) ts =
     (if i < length ts then
        (case ts ! i of
           [] \<Rightarrow> merge_by sched ts
         | e # es \<Rightarrow> e # merge_by sched (ts[i := es]))
      else merge_by sched ts)"


section \<open>The swarm dispatcher (class ProxySwarm)\<close>

type_synonym url = string
type_synonym host = string

text \<open>\<open>Omit<ProxyConfig, "host">\<close>: what all proxies share.\<close>

record ProxyShared =
  port :: nat
  username :: string
  password :: string

text \<open>
  The instance. Its header map is filled with constants by the constructor, is the same for
  every request and is left out.
\<close>

record ProxySwarm =
  proxies :: "host list"
  proxyConfig :: ProxyShared

datatype console = ConsoleError string | ConsoleLog string

text \<open>
  The constructor: an empty proxy list is reported on the error stream, and construction
  goes on. It returns what was printed and the instance.
\<close>

definition new_ProxySwarm :: "host list \<Rightarrow> ProxyShared \<Rightarrow> console list \<times> ProxySwarm" where
  "new_ProxySwarm config_proxies shared =
     ((if length config_proxies = 0
       then [ConsoleError ''Error: No proxies provided in proxy array''] else []),
      \<lparr>proxies = config_proxies, proxyConfig = shared\<rparr>)"

subsection \<open>The readiness gate\<close>

text \<open>
  What the gate does that can be seen: a probe \<open>fetch\<close> is issued, it is answered or
  refused, a line is printed for an endpoint that answered, the loop sleeps. Probe events
  carry the number of the pass.
\<close>

datatype gate_event =
    LogWaiting
  | Probe nat host
  | Answered nat host
  | Refused nat host
  | LogReady host
  | Sleep nat

definition PING_INTERVAL_MS :: nat where
  "PING_INTERVAL_MS = 1000"

text \<open>
  One pass, \<open>Promise.all(this.proxies.map(...))\<close>. The callbacks run in list order up to their
  first \<open>await\<close>, so every endpoint is tested against \<open>running\<close> as it was when the pass
  began, and a probe is issued for each one that is not in it. The probes then settle in the
  order of the schedule: an answer prints the line and adds the endpoint to \<open>running\<close>, a
  refusal is caught and does nothing. \<open>probe n i\<close> tells whether the probe of the pass \<open>n\<close>
  to the endpoint at index \<open>i\<close> is answered. (A probe that never settles keeps the gate from
  returning; the properties below are about a gate that returns.)
\<close>

definition gate_pass ::
  "(nat \<Rightarrow> nat \<Rightarrow> bool) \<Rightarrow> nat list \<Rightarrow> host list \<Rightarrow> nat \<Rightarrow> host set
     \<Rightarrow> gate_event list \<times> host set" where
  "gate_pass probe sched hosts n running =
     (let pending = filter (\<lambda>(i, p). p \<notin> running) (enumerate 0 hosts);
          issued = map (\<lambda>(i, p). Probe n p) pending;
          settled = map (\<lambda>(i, p). if probe n i then [Answered n p, LogReady p]
                                    else [Refused n p]) pending;
          answered = set (map snd (filter (\<lambda>(i, p). probe n i) pending))
      in (issued @ merge_by sched settled, running \<union> answered))"

text \<open>
  The loop \<open>while (running.size < this.proxies.length)\<close>: a pass, then a sleep of
  \<open>PING_INTERVAL_MS\<close>. Nothing bounds it, so the model counts passes down from a fuel and
  returns \<open>None\<close> when the loop is still running after that many.
\<close>

fun wait_loop ::
  "nat \<Rightarrow> (nat \<Rightarrow> nat \<Rightarrow> bool) \<Rightarrow> (nat \<Rightarrow> nat list) \<Rightarrow> host list \<Rightarrow> nat \<Rightarrow> host set
     \<Rightarrow> gate_event list option" where
  "wait_loop fuel probe sched hosts n running =
     (if card running < length hosts then
        (case fuel of
           0 \<Rightarrow> None
         | Suc fuel' \<Rightarrow>
             (case gate_pass probe (sched n) hosts n running of
                (evs, running') \<Rightarrow>
                  map_option (\<lambda>rest. evs @ Sleep PING_INTERVAL_MS # rest)
                    (wait_loop fuel' probe sched hosts (Suc n) running')))
      else Some [])"

declare wait_loop.simps [simp del]

definition waitForProxiesReady ::
  "nat \<Rightarrow> (nat \<Rightarrow> nat \<Rightarrow> bool) \<Rightarrow> (nat \<Rightarrow> nat list) \<Rightarrow> ProxySwarm \<Rightarrow> gate_event list option" where
  "waitForProxiesReady fuel probe sched swarm =
     map_option (\<lambda>evs. LogWaiting # evs) (wait_loop fuel probe sched (proxies swarm) 0 {})"


subsection \<open>run\<close>

text \<open>
  What lies outside the program decides how an item goes: whether its request is answered
  (a timeout aborts it, so it fails then), and whether the caller's handler and error handler
  return, throw or never settle. The world gives this for the item of every wave and slot.
\<close>

datatype fetch_outcome = Responds | Fails

datatype call_outcome = Returns | Throws | Hangs

record item_world =
  fetch_out :: fetch_outcome
  handler_out :: call_outcome
  errorHandler_out :: call_outcome

type_synonym world = "nat \<Rightarrow> nat \<Rightarrow> item_world"

text \<open>
  The steps of \<open>run\<close> that can be seen, each with the wave and the slot of its item:
  the task starts (start time, timeout, request through the proxy of its slot), the handler
  or the error handler is called, the timeout is cleared, the estimator ticks, the progress
  line is printed as success or as failure, and the task's promise is fulfilled or rejected.
  \<open>Done\<close> is the last line of a run.
\<close>

datatype event =
    Start nat nat url host
  | CallHandler nat nat
  | CallErrorHandler nat nat
  | ClearTimeout nat nat
  | Tick nat nat
  | LogInfo nat nat
  | LogError nat nat
  | Fulfilled nat nat
  | Rejected nat nat
  | Done

datatype settled = Fulfils | Rejects | Pending

text \<open>
  The \<open>catch\<close> block and what follows it: \<open>errorHandler?.(url, error)\<close>, then \<open>finally\<close>, the
  tick and the line in red. An exception of the error handler leaves the \<open>catch\<close> block, so
  after \<open>finally\<close> the task is rejected without tick or line.
\<close>

definition on_error :: "bool \<Rightarrow> item_world \<Rightarrow> nat \<Rightarrow> nat \<Rightarrow> event list \<times> settled" where
  "on_error has_errorHandler iw w i =
     (if has_errorHandler then
        (case errorHandler_out iw of
           Returns \<Rightarrow>
             ([CallErrorHandler w i, ClearTimeout w i, Tick w i, LogError w i, Fulfilled w i],
              Fulfils)
         | Throws \<Rightarrow> ([CallErrorHandler w i, ClearTimeout w i, Rejected w i], Rejects)
         | Hangs \<Rightarrow> ([CallErrorHandler w i], Pending))
      else ([ClearTimeout w i, Tick w i, LogError w i, Fulfilled w i], Fulfils))"

text \<open>The task from \<open>await fetch\<close> on.\<close>

definition after_fetch :: "bool \<Rightarrow> item_world \<Rightarrow> nat \<Rightarrow> nat \<Rightarrow> event list \<times> settled" where
  "after_fetch has_errorHandler iw w i =
     (case fetch_out iw of
        Fails \<Rightarrow> on_error has_errorHandler iw w i
      | Responds \<Rightarrow>
          (case handler_out iw of
             Returns \<Rightarrow>
               ([CallHandler w i, ClearTimeout w i, Tick w i, LogInfo w i, Fulfilled w i],
                Fulfils)
           | Throws \<Rightarrow>
               (case on_error has_errorHandler iw w i of
                  (evs, s) \<Rightarrow> (CallHandler w i # evs, s))
           | Hangs \<Rightarrow> ([CallHandler w i], Pending)))"

text \<open>
  One task of \<open>chunk.map(async (url, i) => ...)\<close>: the steps up to the first \<open>await\<close>, the
  steps after it, and how its promise settles. \<open>proxies[i]\<close> out of range is \<open>undefined\<close>,
  and reading its \<open>agent\<close> throws before the request is made.
\<close>

definition task ::
  "bool \<Rightarrow> world \<Rightarrow> host list \<Rightarrow> nat \<Rightarrow> nat \<Rightarrow> url \<Rightarrow> event list \<times> event list \<times> settled" where
  "task has_errorHandler world hosts w i u =
     (if i < length hosts then
        (case after_fetch has_errorHandler (world w i) w i of
           (evs, s) \<Rightarrow> ([Start w i u (hosts ! i)], evs, s))
      else ([], [Rejected w i], Rejects))"

text \<open>
  One wave, \<open>Promise.all(chunk.map(...))\<close>: the tasks start in slot order, then their later
  steps interleave by the schedule. It returns the steps and how each task settles. In the
  program the steps between two \<open>await\<close>s of a task are not interrupted; the model lets them
  interleave as well, so it shows every order the program can show, and more.
\<close>

definition wave ::
  "bool \<Rightarrow> world \<Rightarrow> host list \<Rightarrow> nat list \<Rightarrow> nat \<Rightarrow> url list \<Rightarrow> event list \<times> settled list" where
  "wave has_errorHandler world hosts sched w c =
     (let tasks = map (\<lambda>(i, u). task has_errorHandler world hosts w i u) (enumerate 0 c)
      in (concat (map fst tasks) @ merge_by sched (map (\<lambda>t. fst (snd t)) tasks),
          map (\<lambda>t. snd (snd t)) tasks))"

text \<open>
  How a call of \<open>run\<close> ends: it returns, its promise is rejected, or it waits for ever.
\<close>

datatype run_result = Completed | Aborted | Hung

text \<open>
  The loop \<open>for (const chunk of chunks) await Promise.all(...)\<close>. \<open>Promise.all\<close> is rejected
  as soon as one task is, and the exception leaves \<open>run\<close>: no later wave starts, while the
  other tasks of the wave still run on. It is fulfilled when every task is, and stays pending
  when no task is rejected and one never settles.
\<close>

fun run_waves ::
  "bool \<Rightarrow> world \<Rightarrow> host list \<Rightarrow> (nat \<Rightarrow> nat list) \<Rightarrow> nat \<Rightarrow> url list list
     \<Rightarrow> event list \<times> run_result" where
  "run_waves has_errorHandler world hosts sched w [] = ([Done], Completed)"
| "run_waves has_errorHandler world hosts sched w (c # cs) =
     (case wave has_errorHandler world hosts (sched w) w c of
        (evs, ss) \<Rightarrow>
          if Rejects \<in> set ss then (evs, Aborted)
          else if Pending \<in> set ss then (evs, Hung)
          else (case run_waves has_errorHandler world hosts sched (Suc w) cs of
                  (evs', r) \<Rightarrow> (evs @ evs', r)))"

text \<open>
  \<open>run(urls, handler, errorHandler?)\<close>. The handlers act through the world; the flag tells
  whether an error handler was passed. The estimator and the proxy agents are built before
  the loop (a host name from which no proxy address can be built makes \<open>run\<close> fail there,
  before the first wave; the model takes the host names as well formed). The estimator's
  state is followed in the section on the estimator; here a tick is a step of the task.
\<close>

definition run ::
  "ProxySwarm \<Rightarrow> (nat \<Rightarrow> nat list) \<Rightarrow> world \<Rightarrow> url list \<Rightarrow> bool \<Rightarrow> event list \<times> run_result" where
  "run swarm sched world urls has_errorHandler =
     run_waves has_errorHandler world (proxies swarm) sched 0
       (chunk urls (length (proxies swarm)))"


section \<open>Notions used to state the properties\<close>

text \<open>All steps of a task, in its own order, and how it settles.\<close>

definition task_steps :: "bool \<Rightarrow> world \<Rightarrow> host list \<Rightarrow> nat \<Rightarrow> nat \<Rightarrow> url \<Rightarrow> event list" where
  "task_steps has_errorHandler world hosts w i u =
     fst (task has_errorHandler world hosts w i u)
       @ fst (snd (task has_errorHandler world hosts w i u))"

definition task_settles :: "bool \<Rightarrow> world \<Rightarrow> host list \<Rightarrow> nat \<Rightarrow> nat \<Rightarrow> url \<Rightarrow> settled" where
  "task_settles has_errorHandler world hosts w i u =
     snd (snd (task has_errorHandler world hosts w i u))"

text \<open>The steps of all tasks of a wave, and of a list of waves numbered from \<open>w0\<close>.\<close>

definition wave_steps :: "bool \<Rightarrow> world \<Rightarrow> host list \<Rightarrow> nat \<Rightarrow> url list \<Rightarrow> event list" where
  "wave_steps h world hosts w c =
     concat (map (\<lambda>(i, u). task_steps h world hosts w i u) (enumerate 0 c))"

definition all_steps :: "bool \<Rightarrow> world \<Rightarrow> host list \<Rightarrow> nat \<Rightarrow> url list list \<Rightarrow> event list" where
  "all_steps h world hosts w0 cs =
     concat (map (\<lambda>(w, c). wave_steps h world hosts w c) (enumerate w0 cs))"

text \<open>The wave and slot an event belongs to.\<close>

fun slot_of :: "event \<Rightarrow> (nat \<times> nat) option" where
  "slot_of (Start w i u p) = Some (w, i)"
| "slot_of (CallHandler w i) = Some (w, i)"
| "slot_of (CallErrorHandler w i) = Some (w, i)"
| "slot_of (ClearTimeout w i) = Some (w, i)"
| "slot_of (Tick w i) = Some (w, i)"
| "slot_of (LogInfo w i) = Some (w, i)"
| "slot_of (LogError w i) = Some (w, i)"
| "slot_of (Fulfilled w i) = Some (w, i)"
| "slot_of (Rejected w i) = Some (w, i)"
| "slot_of Done = None"

text \<open>
  Kinds of events: the start of a task, a tick of the estimator, a call of the success
  handler or of the error handler.
\<close>

fun is_start :: "event \<Rightarrow> bool" where
  "is_start (Start w i u p) = True"
| "is_start e = False"



text \<open>
  Reading a printed field back: the number that a string of decimal digits stands for
  (leading zeros count for nothing), and the test that a character is a digit.
\<close>

definition digit_value :: "char \<Rightarrow> nat" where
  "digit_value c = of_char c - 48"

definition decimal_value :: "string \<Rightarrow> nat" where
  "decimal_value s = foldl (\<lambda>a c. 10 * a + digit_value c) 0 s"

definition is_digit :: "char \<Rightarrow> bool" where
  "is_digit c = (c \<in> set ''0123456789'')"

text \<open>The pass a probe event of the gate belongs to.\<close>

fun pass_of :: "gate_event \<Rightarrow> nat option" where
  "pass_of (Probe n p) = Some n"
| "pass_of (Answered n p) = Some n"
| "pass_of (Refused n p) = Some n"
| "pass_of e = None"


section \<open>Inputs of the examples\<close>

text \<open>
  Two proxies and three items, as in the scenario of the specification; a world in which
  every request is answered and every handler returns; a schedule.
\<close>

definition shared_example :: ProxyShared where
  "shared_example = \<lparr>port = 8081, username = ''username'', password = ''password''\<rparr>"

definition swarm_example :: ProxySwarm where
  "swarm_example = snd (new_ProxySwarm [''p1'', ''p2''] shared_example)"

definition urls_example :: "url list" where
  "urls_example = [''u1'', ''u2'', ''u3'']"

definition world_ok :: world where
  "world_ok w i = \<lparr>fetch_out = Responds, handler_out = Returns, errorHandler_out = Returns\<rparr>"

definition sched_example :: "nat \<Rightarrow> nat list" where
  "sched_example w = [1, 0, 0, 1, 1]"






text \<open>
  The gate over the two proxies: the first answers at once, the second from the third pass
  on; a schedule for the probes of a pass; and the steps the gate then takes.
\<close>

definition probe_example :: "nat \<Rightarrow> nat \<Rightarrow> bool" where
  "probe_example n i = (i = 0 \<or> 2 \<le> n)"

definition gate_sched_example :: "nat \<Rightarrow> nat list" where
  "gate_sched_example n = [1, 0]"

definition gate_trace_example :: "gate_event list" where
  "gate_trace_example =
     [LogWaiting,
      Probe 0 ''p1'', Probe 0 ''p2'', Refused 0 ''p2'', Answered 0 ''p1'', LogReady ''p1'',
      Sleep 1000,
      Probe 1 ''p2'', Refused 1 ''p2'',
      Sleep 1000,
      Probe 2 ''p2'', Answered 2 ''p2'', LogReady ''p2'',
      Sleep 1000]"

section \<open>Properties of the estimator\<close>

subsection \<open>One tick and a sequence of ticks\<close>


lemma tick_state_ema:
  "ema (tick_state config c) =
     (if ema config = 0 then call_duration c
      else alpha config * call_duration c + (1 - alpha config) * ema config)"
  by (cases c) (simp add: tick_state_def tick_def call_duration_def Let_def)

lemma tick_state_fields:
  "itemsProcessed (tick_state config c) = itemsProcessed config + 1"
  "alpha (tick_state config c) = alpha config"
  "totalItems (tick_state config c) = totalItems config"
  "startTime (tick_state config c) = startTime config"
  by (cases c; simp add: tick_state_def tick_def Let_def)+

lemma ticks_snoc: "ticks config (cs @ [c]) = tick_state (ticks config cs) c"
  by (simp add: ticks_def)

lemma ticks_Nil: "ticks config [] = config"
  by (simp add: ticks_def)

lemma ticks_itemsProcessed:
  "itemsProcessed (ticks config cs) = itemsProcessed config + int (length cs)"
  by (induction cs rule: rev_induct) (simp_all add: ticks_Nil ticks_snoc tick_state_fields)

lemma ticks_alpha: "alpha (ticks config cs) = alpha config"
  by (induction cs rule: rev_induct) (simp_all add: ticks_Nil ticks_snoc tick_state_fields)

lemma ticks_totalItems: "totalItems (ticks config cs) = totalItems config"
  by (induction cs rule: rev_induct) (simp_all add: ticks_Nil ticks_snoc tick_state_fields)


lemma spec_ema_pos:
  "0 \<le> a \<Longrightarrow> a \<le> 1 \<Longrightarrow> \<forall>d\<in>set ds. 0 < d \<Longrightarrow> 1 \<le> i \<Longrightarrow> i \<le> length ds \<Longrightarrow> 0 < spec_ema a ds i"
proof (induction a ds i rule: spec_ema.induct)
  case (1 a ds)
  then show ?case by simp
next
  case (2 a ds)
  then show ?case by (cases ds) auto
next
  case (3 a ds i)
  then have d: "0 < ds ! Suc i" and e: "0 < spec_ema a ds (Suc i)" by auto
  have "0 \<le> a * ds ! Suc i"
    using "3.prems"(1) d by (intro mult_nonneg_nonneg) simp_all
  moreover have "0 \<le> (1 - a) * spec_ema a ds (Suc i)"
    using "3.prems"(2) e by (intro mult_nonneg_nonneg) simp_all
  moreover have "0 < a * ds ! Suc i \<or> 0 < (1 - a) * spec_ema a ds (Suc i)"
  proof (cases "a = 0")
    case True
    then show ?thesis using e by simp
  next
    case False
    with 3 have "0 < a" by simp
    then show ?thesis using d by simp
  qed
  ultimately have "0 < a * ds ! Suc i + (1 - a) * spec_ema a ds (Suc i)" by linarith
  then show ?case by simp
qed


lemma ticks_ema_sign:
  assumes "0 \<le> alpha config" and "alpha config < 1" and "ema config = 0"
    and "\<forall>c\<in>set cs. 0 \<le> call_duration c"
  shows "0 \<le> ema (ticks config cs) \<and> (ema (ticks config cs) = 0 \<longleftrightarrow> (\<forall>c\<in>set cs. call_duration c = 0))"
  using assms(4)
proof (induction cs rule: rev_induct)
  case Nil
  then show ?case by (simp add: ticks_def assms(3))
next
  case (snoc c cs)
  then have ih: "0 \<le> ema (ticks config cs)"
    "ema (ticks config cs) = 0 \<longleftrightarrow> (\<forall>c\<in>set cs. call_duration c = 0)" by auto
  have d: "0 \<le> call_duration c" using snoc.prems by simp
  show ?case
  proof (cases "ema (ticks config cs) = 0")
    case True
    then show ?thesis using ih d by (simp add: ticks_snoc tick_state_ema)
  next
    case False
    have p: "0 < ema (ticks config cs)" using False ih(1) by (simp add: less_le)
    have "0 < (1 - alpha config) * ema (ticks config cs)" using p assms(2) by simp
    moreover have "0 \<le> alpha config * call_duration c" using d assms(1) by simp
    ultimately have "0 < alpha config * call_duration c + (1 - alpha config) * ema (ticks config cs)"
      by linarith
    then have pos: "0 < ema (ticks config (cs @ [c]))"
      using False by (simp add: ticks_snoc tick_state_ema ticks_alpha)
    have "\<not> (\<forall>c\<in>set cs. call_duration c = 0)" using False ih by simp
    then show ?thesis using pos by auto
  qed
qed


subsection \<open>The fields of the formatted estimate\<close>

lemma floor_rem_range:
  fixes y c :: real
  assumes "0 < c"
  shows "0 \<le> y - of_int \<lfloor>y / c\<rfloor> * c" and "y - of_int \<lfloor>y / c\<rfloor> * c < c"
proof -
  have "of_int \<lfloor>y / c\<rfloor> * c \<le> y" using assms by (rule floor_divide_lower)
  then show "0 \<le> y - of_int \<lfloor>y / c\<rfloor> * c" by simp
  have "y < (of_int \<lfloor>y / c\<rfloor> + 1) * c" using assms by (rule floor_divide_upper)
  then show "y - of_int \<lfloor>y / c\<rfloor> * c < c" by (simp add: algebra_simps)
qed

lemma floor_div_range:
  fixes y c :: real
  assumes "0 < c" and "0 \<le> y" and "y < c * of_int k"
  shows "0 \<le> \<lfloor>y / c\<rfloor>" and "\<lfloor>y / c\<rfloor> < k"
proof -
  show "0 \<le> \<lfloor>y / c\<rfloor>" using assms by simp
  have "y / c < of_int k" using assms by (simp add: pos_divide_less_eq mult.commute)
  then show "\<lfloor>y / c\<rfloor> < k" by (simp add: floor_less_iff)
qed

lemma delta_days_range: "0 \<le> delta_days time" "delta_days time < 86400"
  using floor_rem_range [of 86400 "\<bar>time\<bar> / 1000"] by (simp_all add: delta_days_def eta_days_def)

lemma eta_hours_eq: "eta_hours time = \<lfloor>delta_days time / 3600\<rfloor>"
  and eta_hours_range: "0 \<le> eta_hours time" "eta_hours time < 24"
proof -
  have r: "0 \<le> \<lfloor>delta_days time / 3600\<rfloor>" "\<lfloor>delta_days time / 3600\<rfloor> < 24"
    using floor_div_range [of 3600 "delta_days time" 24] delta_days_range [of time] by simp_all
  then show "eta_hours time = \<lfloor>delta_days time / 3600\<rfloor>"
    by (simp add: eta_hours_def)
  then show "0 \<le> eta_hours time" "eta_hours time < 24" using r by simp_all
qed

lemma delta_hours_range: "0 \<le> delta_hours time" "delta_hours time < 3600"
  using floor_rem_range [of 3600 "delta_days time"] by (simp_all add: delta_hours_def eta_hours_eq)

lemma eta_minutes_eq: "eta_minutes time = \<lfloor>delta_hours time / 60\<rfloor>"
  and eta_minutes_range: "0 \<le> eta_minutes time" "eta_minutes time < 60"
proof -
  have r: "0 \<le> \<lfloor>delta_hours time / 60\<rfloor>" "\<lfloor>delta_hours time / 60\<rfloor> < 60"
    using floor_div_range [of 60 "delta_hours time" 60] delta_hours_range [of time] by simp_all
  then show "eta_minutes time = \<lfloor>delta_hours time / 60\<rfloor>"
    by (simp add: eta_minutes_def)
  then show "0 \<le> eta_minutes time" "eta_minutes time < 60" using r by simp_all
qed

lemma eta_residual_range: "0 \<le> eta_residual time" "eta_residual time < 60"
proof -
  have "eta_residual time = delta_hours time - of_int (eta_minutes time) * 60"
    by (simp add: eta_residual_def)
  then show "0 \<le> eta_residual time" "eta_residual time < 60"
    using floor_rem_range [of 60 "delta_hours time"] by (simp_all add: eta_minutes_eq)
qed

lemma js_rem_small: "0 \<le> x \<Longrightarrow> x < 60 \<Longrightarrow> js_rem x 60 = x"
proof -
  assume a: "0 \<le> x" "x < 60"
  then have "\<lfloor>x / 60\<rfloor> = 0" by (simp add: floor_eq_iff)
  then show ?thesis using a by (simp add: js_rem_def)
qed

lemma eta_seconds_eq: "eta_seconds time = \<lfloor>eta_residual time + 1 / 2\<rfloor>"
  by (simp add: eta_seconds_def js_round_def js_rem_small eta_residual_range)

lemma eta_seconds_range: "0 \<le> eta_seconds time" "eta_seconds time \<le> 60"
proof -
  have "0 \<le> eta_residual time + 1 / 2" using eta_residual_range(1) [of time] by simp
  then show "0 \<le> eta_seconds time" by (simp add: eta_seconds_eq)
  have "eta_residual time + 1 / 2 < 61" using eta_residual_range(2) [of time] by simp
  then have "\<lfloor>eta_residual time + 1 / 2\<rfloor> < 61" by (simp add: floor_less_iff)
  then show "eta_seconds time \<le> 60" by (simp add: eta_seconds_eq)
qed


lemma length_nat_toString: "n < 100 \<Longrightarrow> length (nat_toString n) = (if n < 10 then 1 else 2)"
  by (subst nat_toString.simps, subst nat_toString.simps) (simp add: div_less_iff_less_mult)

lemma length_padStart: "length (padStart n c s) = max n (length s)"
  by (simp add: padStart_def)

lemma length_pad2: "0 \<le> i \<Longrightarrow> i < 100 \<Longrightarrow> length (padStart 2 CHR ''0'' (toString i)) = 2"
  by (simp add: length_padStart toString_def length_nat_toString)

lemma formatETA_finite_fields:
  "formatETA_finite time =
     padStart 3 CHR ''0'' (toString (eta_days time)) @ '':'' @
     padStart 2 CHR ''0'' (toString (eta_hours time)) @ '':'' @
     padStart 2 CHR ''0'' (toString (eta_minutes time)) @ '':'' @
     padStart 2 CHR ''0'' (toString (eta_seconds time))"
  by (simp add: formatETA_finite_def)



text \<open>
  The printed fields read back as the numbers they were made from, and these numbers are the
  days, hours, minutes and left-over seconds of the time.
\<close>

lemma digit_char_value: "d < 10 \<Longrightarrow> digit_value (digit_char d) = d \<and> is_digit (digit_char d)"
proof -
  assume "d < 10"
  then have "d \<in> {0, 1, 2, 3, 4, 5, 6, 7, 8, 9}" by auto
  then show ?thesis
    by (auto simp: digit_char_def digit_value_def is_digit_def)
qed

lemma decimal_value_snoc: "decimal_value (s @ [c]) = 10 * decimal_value s + digit_value c"
  by (simp add: decimal_value_def)

lemma nat_toString_value: "decimal_value (nat_toString n) = n \<and> (\<forall>c\<in>set (nat_toString n). is_digit c)"
proof (induction n rule: nat_toString.induct)
  case (1 n)
  show ?case
  proof (cases "n < 10")
    case True
    then show ?thesis
      using digit_char_value [of n] by (subst (1 2) nat_toString.simps) (simp add: decimal_value_def)
  next
    case False
    have m: "n mod 10 < 10" by simp
    show ?thesis
      using 1 [OF False] False digit_char_value [OF m]
      by (subst (1 2) nat_toString.simps) (simp add: decimal_value_snoc)
  qed
qed

lemma decimal_value_zeros: "decimal_value (replicate k CHR ''0'' @ s) = decimal_value s"
proof -
  have "foldl (\<lambda>a c. 10 * a + digit_value c) 0 (replicate k CHR ''0'') = 0"
    by (induction k) (simp_all add: digit_value_def)
  then show ?thesis by (simp add: decimal_value_def)
qed

lemma padded_field:
  assumes "0 \<le> i"
  shows "int (decimal_value (padStart k CHR ''0'' (toString i))) = i"
    and "\<forall>c\<in>set (padStart k CHR ''0'' (toString i)). is_digit c"
proof -
  show "int (decimal_value (padStart k CHR ''0'' (toString i))) = i"
    using assms by (simp add: padStart_def toString_def decimal_value_zeros nat_toString_value)
  have "is_digit CHR ''0''" by (simp add: is_digit_def)
  then show "\<forall>c\<in>set (padStart k CHR ''0'' (toString i)). is_digit c"
    using assms nat_toString_value [of "nat i"] by (auto simp: padStart_def toString_def)
qed

lemma length_pad3: "0 \<le> i \<Longrightarrow> i < 1000 \<Longrightarrow> length (padStart 3 CHR ''0'' (toString i)) = 3"
proof -
  assume a: "0 \<le> i" "i < 1000"
  have "length (nat_toString n) \<le> 3" if "n < 1000" for n
  proof -
    have "n div 10 < 100" using that by simp
    then have "length (nat_toString (n div 10)) \<le> 2" by (simp add: length_nat_toString)
    then show ?thesis by (subst nat_toString.simps) simp
  qed
  then have "length (nat_toString (nat i)) \<le> 3" using a by simp
  then show ?thesis using a by (simp add: length_padStart toString_def)
qed

lemma eta_days_nonneg: "0 \<le> eta_days time"
  by (simp add: eta_days_def)

lemma eta_decomposition:
  "\<bar>time\<bar> / 1000 = 86400 * of_int (eta_days time) + 3600 * of_int (eta_hours time)
       + 60 * of_int (eta_minutes time) + eta_residual time"
  by (simp add: eta_residual_def delta_hours_def delta_days_def)


section \<open>Claims about the estimator\<close>




text \<open>
  Claim C8, as amended. The claim reads: in every state reached by at most \<open>totalItems\<close>
  ticks of non-negative duration, \<open>itemsProcessed\<close> does not exceed \<open>totalItems\<close>, and \<open>ema\<close> is
  0 when no sample has been taken and strictly positive after at least one. For a smoothing
  factor in \<open>[0, 1)\<close> the count is bounded and \<open>ema\<close> is never negative; it is 0 exactly when
  every duration so far was 0 (so also before the first sample) and strictly positive
  otherwise.
\<close>

theorem estimator_invariant:
  assumes "0 \<le> alpha config" and "alpha config < 1"
    and "ema config = 0" and "itemsProcessed config = 0"
    and "\<forall>c\<in>set cs. 0 \<le> call_duration c"
    and "int (length cs) \<le> totalItems config"
  shows "itemsProcessed (ticks config cs) \<le> totalItems (ticks config cs)
         \<and> 0 \<le> ema (ticks config cs)
         \<and> (if \<forall>c\<in>set cs. call_duration c = 0 then ema (ticks config cs) = 0
             else 0 < ema (ticks config cs))"
proof -
  have s: "0 \<le> ema (ticks config cs)"
    "ema (ticks config cs) = 0 \<longleftrightarrow> (\<forall>c\<in>set cs. call_duration c = 0)"
    using ticks_ema_sign [OF assms(1,2,3,5)] by simp_all
  have "itemsProcessed (ticks config cs) \<le> totalItems (ticks config cs)"
    using assms(4,6) by (simp add: ticks_itemsProcessed ticks_totalItems)
  moreover have "\<not> (\<forall>c\<in>set cs. call_duration c = 0) \<Longrightarrow> 0 < ema (ticks config cs)"
    using s by (simp add: less_le)
  ultimately show ?thesis using s by auto
qed

text \<open>
  Durations 0 and 2000 ms out of three items: the count is within bounds and \<open>ema\<close> is
  positive; with no tick at all \<open>ema\<close> is 0.
\<close>

theorem estimator_invariant_witness:
  "itemsProcessed (ticks (new_timer 0 3) [(0, 0, 1), (2000, 0, 1)]) \<le> totalItems (ticks (new_timer 0 3) [(0, 0, 1), (2000, 0, 1)])
   \<and> 0 < ema (ticks (new_timer 0 3) [(0, 0, 1), (2000, 0, 1)])
   \<and> ema (ticks (new_timer 0 3) []) = 0"
proof -
  let ?c = "new_timer 0 3"
  let ?cs = "[(0, 0, 1), (2000, 0, 1)] :: tick_call list"
  have h: "0 \<le> alpha ?c" "alpha ?c < 1" "ema ?c = 0" "itemsProcessed ?c = 0"
    by (simp_all add: new_timer_def)
  have d: "\<forall>c\<in>set ?cs. 0 \<le> call_duration c" by (simp add: call_duration_def)
  have l: "int (length ?cs) \<le> totalItems ?c" by (simp add: new_timer_def)
  have n: "\<not> (\<forall>c\<in>set ?cs. call_duration c = 0)" by (simp add: call_duration_def)
  have e: "\<forall>c\<in>set ([] :: tick_call list). 0 \<le> call_duration c" 
    and l0: "int (length ([] :: tick_call list)) \<le> totalItems ?c" by (simp_all add: new_timer_def)
  show ?thesis
    using estimator_invariant [OF h d l] estimator_invariant [OF h e l0] n by simp
qed

text \<open>
  Claim C8 as stated fails after one sample of 0 ms: a sample has been taken
  (\<open>itemsProcessed = 1\<close>) and \<open>ema\<close> is not strictly positive.
\<close>

theorem estimator_invariant_counterexample:
  "int (length [(0 :: real, 0 :: real, 1 :: real)]) \<le> totalItems (new_timer 0 1)
   \<and> 0 \<le> call_duration (0, 0, 1)
   \<and> itemsProcessed (ticks (new_timer 0 1) [(0, 0, 1)]) = 1
   \<and> \<not> 0 < ema (ticks (new_timer 0 1) [(0, 0, 1)])"
  by (simp add: ticks_def tick_state_def tick_def new_timer_def call_duration_def)

text \<open>
  Claim C9: the projected estimate is \<open>ema * remainingItems / scaleFactor\<close>, over the updated
  \<open>ema\<close> and count, and it is shown as days, hours, minutes and seconds joined by colons,
  the days padded with zeros to at least three characters (exactly three below 1000 days)
  and each other field to exactly two. The fields are strings of digits that read back as
  the numbers \<open>d\<close>, \<open>h\<close>, \<open>m\<close> and \<open>s\<close>, where the estimate in seconds is
  \<open>86400 * d + 3600 * h + 60 * m + r\<close> with \<open>0 \<le> d\<close>, \<open>0 \<le> h < 24\<close>, \<open>0 \<le> m < 60\<close> and
  \<open>0 \<le> r < 60\<close>, and \<open>s\<close> is \<open>r\<close> rounded to the nearest integer. The scale factor is not 0
  (in \<open>run\<close> it is the number of proxies of a wave that has items).
\<close>

theorem eta_projected_and_formatted:
  assumes "scaleFactor \<noteq> 0"
  shows "let config' = fst (tick config now itemStartTime scaleFactor);
             remainingItems = totalItems config - itemsProcessed config';
             t = ema config' * of_int remainingItems / scaleFactor;
             d = padStart 3 CHR ''0'' (toString (eta_days t));
             h = padStart 2 CHR ''0'' (toString (eta_hours t));
             m = padStart 2 CHR ''0'' (toString (eta_minutes t));
             s = padStart 2 CHR ''0'' (toString (eta_seconds t))
         in eta (snd (tick config now itemStartTime scaleFactor)) = formatETA_finite t
            \<and> formatETA_finite t = d @ '':'' @ h @ '':'' @ m @ '':'' @ s
            \<and> 3 \<le> length d \<and> length h = 2 \<and> length m = 2 \<and> length s = 2
            \<and> (eta_days t < 1000 \<longrightarrow> length d = 3)
            \<and> (\<forall>c\<in>set (d @ h @ m @ s). is_digit c)
            \<and> int (decimal_value d) = eta_days t
            \<and> int (decimal_value h) = eta_hours t
            \<and> int (decimal_value m) = eta_minutes t
            \<and> int (decimal_value s) = eta_seconds t
            \<and> \<bar>t\<bar> / 1000 = 86400 * of_int (eta_days t) + 3600 * of_int (eta_hours t)
                  + 60 * of_int (eta_minutes t) + eta_residual t
            \<and> 0 \<le> eta_days t
            \<and> 0 \<le> eta_hours t \<and> eta_hours t < 24
            \<and> 0 \<le> eta_minutes t \<and> eta_minutes t < 60
            \<and> 0 \<le> eta_residual t \<and> eta_residual t < 60
            \<and> eta_seconds t = round (eta_residual t)"
proof -
  define t where "t = ema (fst (tick config now itemStartTime scaleFactor))
      * of_int (totalItems config - itemsProcessed (fst (tick config now itemStartTime scaleFactor)))
      / scaleFactor"
  define d where "d = padStart 3 CHR ''0'' (toString (eta_days t))"
  define h where "h = padStart 2 CHR ''0'' (toString (eta_hours t))"
  define m where "m = padStart 2 CHR ''0'' (toString (eta_minutes t))"
  define s where "s = padStart 2 CHR ''0'' (toString (eta_seconds t))"
  have e: "eta (snd (tick config now itemStartTime scaleFactor)) = formatETA_finite t"
    using assms by (simp add: tick_def Let_def js_div_def t_def)
  have f: "formatETA_finite t = d @ '':'' @ h @ '':'' @ m @ '':'' @ s"
    by (simp add: formatETA_finite_fields d_def h_def m_def s_def)
  have lh: "length h = 2"
    unfolding h_def using eta_hours_range [of t] by (intro length_pad2) simp_all
  have lm: "length m = 2"
    unfolding m_def using eta_minutes_range [of t] by (intro length_pad2) simp_all
  have ls: "length s = 2"
    unfolding s_def using eta_seconds_range [of t] by (intro length_pad2) simp_all
  have ld: "3 \<le> length d" by (simp add: d_def length_padStart)
  have ld3: "eta_days t < 1000 \<longrightarrow> length d = 3"
    unfolding d_def using eta_days_nonneg [of t] by (auto intro: length_pad3)
  have dig: "\<forall>c\<in>set (d @ h @ m @ s). is_digit c"
    using padded_field(2) [OF eta_days_nonneg [of t], of 3]
      padded_field(2) [OF eta_hours_range(1) [of t], of 2]
      padded_field(2) [OF eta_minutes_range(1) [of t], of 2]
      padded_field(2) [OF eta_seconds_range(1) [of t], of 2]
    by (auto simp: d_def h_def m_def s_def)
  have vd: "int (decimal_value d) = eta_days t"
    unfolding d_def by (rule padded_field(1) [OF eta_days_nonneg])
  have vh: "int (decimal_value h) = eta_hours t"
    unfolding h_def by (rule padded_field(1) [OF eta_hours_range(1)])
  have vm: "int (decimal_value m) = eta_minutes t"
    unfolding m_def by (rule padded_field(1) [OF eta_minutes_range(1)])
  have vs: "int (decimal_value s) = eta_seconds t"
    unfolding s_def by (rule padded_field(1) [OF eta_seconds_range(1)])
  have r: "eta_seconds t = round (eta_residual t)"
    by (simp add: eta_seconds_eq round_def)
  show ?thesis
    unfolding Let_def t_def [symmetric] d_def [symmetric] h_def [symmetric] m_def [symmetric]
      s_def [symmetric]
    using e f ld lh lm ls ld3 dig vd vh vm vs eta_decomposition [of t] eta_days_nonneg [of t]
      eta_hours_range [of t] eta_minutes_range [of t] eta_residual_range [of t] r
    by (intro conjI) assumption+
qed

text \<open>
  The example of the claim: \<open>ema\<close> 2000 ms, 10 items remaining, scale factor 5, so 4000 ms,
  shown as \<open>000:00:00:04\<close>. And an estimate of 90061000 ms, which is one day, one hour, one
  minute and one second, shown as \<open>001:01:01:01\<close>.
\<close>

theorem eta_projected_and_formatted_witness:
  "(5 :: real) \<noteq> 0
   \<and> ema (fst (tick (new_timer 0 11) 2000 0 5)) = 2000
   \<and> totalItems (new_timer 0 11) - itemsProcessed (fst (tick (new_timer 0 11) 2000 0 5)) = 10
   \<and> (2000 :: real) * of_int 10 / 5 = 4000
   \<and> eta (snd (tick (new_timer 0 11) 2000 0 5)) = ''000:00:00:04''
   \<and> ema (fst (tick (new_timer 0 2) 90061000 0 1)) * of_int 1 / 1 = 90061000
   \<and> eta (snd (tick (new_timer 0 2) 90061000 0 1)) = ''001:01:01:01''
   \<and> eta_days 90061000 = 1 \<and> eta_hours 90061000 = 1 \<and> eta_minutes 90061000 = 1
   \<and> eta_residual 90061000 = 1 \<and> eta_seconds 90061000 = 1"
proof -
  have h: "(5 :: real) \<noteq> 0" and h1: "(1 :: real) \<noteq> 0" by simp_all
  have a: "ema (fst (tick (new_timer 0 11) 2000 0 5)) = 2000"
    and b: "totalItems (new_timer 0 11) - itemsProcessed (fst (tick (new_timer 0 11) 2000 0 5)) = 10"
    and a': "ema (fst (tick (new_timer 0 2) 90061000 0 1)) = 90061000"
    and b': "totalItems (new_timer 0 2) - itemsProcessed (fst (tick (new_timer 0 2) 90061000 0 1)) = 1"
    by (simp_all add: tick_def new_timer_def Let_def)
  have f: "padStart 3 CHR ''0'' (toString (eta_days 4000)) = ''000''"
    "padStart 2 CHR ''0'' (toString (eta_hours 4000)) = ''00''"
    "padStart 2 CHR ''0'' (toString (eta_minutes 4000)) = ''00''"
    "padStart 2 CHR ''0'' (toString (eta_seconds 4000)) = ''04''"
    by code_simp+
  have v: "eta_days 90061000 = 1" "eta_hours 90061000 = 1" "eta_minutes 90061000 = 1"
    "eta_residual 90061000 = 1" "eta_seconds 90061000 = 1"
    by code_simp+
  have g: "padStart 3 CHR ''0'' (toString 1) = ''001''" "padStart 2 CHR ''0'' (toString 1) = ''01''"
    by code_simp+
  have 1: "eta (snd (tick (new_timer 0 11) 2000 0 5)) = ''000:00:00:04''"
    using eta_projected_and_formatted [OF h, of "new_timer 0 11" 2000 0]
    unfolding Let_def a b by (simp add: f)
  have 2: "eta (snd (tick (new_timer 0 2) 90061000 0 1)) = ''001:01:01:01''"
    using eta_projected_and_formatted [OF h1, of "new_timer 0 2" 90061000 0]
    unfolding Let_def a' b' by (simp add: v g)
  show ?thesis using a b a' 1 2 v by simp
qed




section \<open>Properties of the library operations\<close>

lemma chunk_empty: "chunk [] n = []" "chunk xs 0 = []"
  by (simp_all add: chunk.simps)

lemma chunk_step: "xs \<noteq> [] \<Longrightarrow> 0 < n \<Longrightarrow> chunk xs n = take n xs # chunk (drop n xs) n"
  by (subst chunk.simps) simp

lemma concat_chunk: "0 < n \<Longrightarrow> concat (chunk xs n) = xs"
proof (induction xs n rule: chunk.induct)
  case (1 xs n)
  show ?case
  proof (cases "xs = []")
    case True
    then show ?thesis by (simp add: chunk_empty)
  next
    case False
    then show ?thesis using 1 by (simp add: chunk_step)
  qed
qed

lemma chunk_index_iff: "0 < n \<Longrightarrow> w < length (chunk xs n) \<longleftrightarrow> w * n < length xs"
proof (induction xs n arbitrary: w rule: chunk.induct)
  case (1 xs n)
  show ?case
  proof (cases "xs = []")
    case True
    then show ?thesis by (simp add: chunk_empty)
  next
    case False
    have c: "length (chunk xs n) = Suc (length (chunk (drop n xs) n))"
      using chunk_step [OF False 1(2)] by simp
    show ?thesis
    proof (cases w)
      case 0
      then show ?thesis using False c by simp
    next
      case (Suc v)
      have "v < length (chunk (drop n xs) n) \<longleftrightarrow> v * n < length (drop n xs)"
        using 1(1) [of v] False 1(2) by simp
      then show ?thesis unfolding Suc c by (simp add: less_diff_conv add.commute)
    qed
  qed
qed

lemma nth_chunk:
  "0 < n \<Longrightarrow> w < length (chunk xs n) \<Longrightarrow> chunk xs n ! w = take n (drop (w * n) xs)"
proof (induction xs n arbitrary: w rule: chunk.induct)
  case (1 xs n)
  have ne: "xs \<noteq> []" using 1(3) by (auto simp: chunk_empty)
  show ?case
  proof (cases w)
    case 0
    then show ?thesis using ne 1(2) by (simp add: chunk_step)
  next
    case (Suc v)
    then have "v < length (chunk (drop n xs) n)" using 1(3) ne 1(2) by (simp add: chunk_step)
    then have "chunk (drop n xs) n ! v = take n (drop (v * n) (drop n xs))"
      using 1(1) ne 1(2) by simp
    then show ?thesis using Suc ne 1(2) by (simp add: chunk_step add.commute)
  qed
qed

lemma length_nth_chunk:
  "0 < n \<Longrightarrow> w < length (chunk xs n) \<Longrightarrow> length (chunk xs n ! w) = min n (length xs - w * n)"
  by (simp add: nth_chunk)

lemma nth_nth_chunk:
  assumes "0 < n" and "w < length (chunk xs n)" and "i < length (chunk xs n ! w)"
  shows "chunk xs n ! w ! i = xs ! (w * n + i)"
proof -
  have "w * n < length xs" using assms(1,2) by (simp add: chunk_index_iff)
  then show ?thesis using assms by (simp add: nth_chunk)
qed

lemma mset_merge_by: "mset (merge_by sched ts) = mset (concat ts)"
proof (induction sched arbitrary: ts)
  case Nil
  then show ?case by simp
next
  case (Cons i sched)
  show ?case
  proof (cases "i < length ts")
    case False
    then show ?thesis using Cons by simp
  next
    case True
    show ?thesis
    proof (cases "ts ! i")
      case Nil
      then show ?thesis using True Cons by simp
    next
      case (Cons e es)
      have ts: "ts = take i ts @ (e # es) # drop (Suc i) ts"
        using True Cons by (metis id_take_nth_drop)
      have up: "ts[i := es] = take i ts @ es # drop (Suc i) ts"
        using True by (simp add: upd_conv_take_nth_drop)
      have "mset (concat ts) = add_mset e (mset (concat (ts[i := es])))"
        by (subst ts, subst up) simp
      then show ?thesis using True Cons Cons.IH [of "ts[i := es]"] by simp
    qed
  qed
qed

lemma set_merge_by: "set (merge_by sched ts) = set (concat ts)"
proof -
  have "set_mset (mset (merge_by sched ts)) = set_mset (mset (concat ts))"
    by (simp only: mset_merge_by)
  then show ?thesis by (simp only: set_mset_mset)
qed

lemma filter_merge_by: "length (filter P (merge_by sched ts)) = length (filter P (concat ts))"
proof -
  have "size (mset (filter P (merge_by sched ts))) = size (mset (filter P (concat ts)))"
    by (simp only: mset_filter mset_merge_by)
  then show ?thesis by (simp only: size_mset)
qed


section \<open>Properties of the dispatcher\<close>

subsection \<open>Tasks\<close>

lemma on_error_cases:
  "on_error h iw w i =
     (if h then
        (case errorHandler_out iw of
           Returns \<Rightarrow>
             ([CallErrorHandler w i, ClearTimeout w i, Tick w i, LogError w i, Fulfilled w i],
              Fulfils)
         | Throws \<Rightarrow> ([CallErrorHandler w i, ClearTimeout w i, Rejected w i], Rejects)
         | Hangs \<Rightarrow> ([CallErrorHandler w i], Pending))
      else ([ClearTimeout w i, Tick w i, LogError w i, Fulfilled w i], Fulfils))"
  by (simp add: on_error_def)

lemma slot_of_on_error: "e \<in> set (fst (on_error h iw w i)) \<Longrightarrow> slot_of e = Some (w, i)"
  by (auto simp: on_error_def split: if_splits call_outcome.splits)

lemma slot_of_after_fetch: "e \<in> set (fst (after_fetch h iw w i)) \<Longrightarrow> slot_of e = Some (w, i)"
  by (auto simp: after_fetch_def on_error_def
      split: if_splits call_outcome.splits fetch_outcome.splits prod.splits)

lemma not_start_after_fetch: "e \<in> set (fst (after_fetch h iw w i)) \<Longrightarrow> \<not> is_start e"
  by (auto simp: after_fetch_def on_error_def
      split: if_splits call_outcome.splits fetch_outcome.splits prod.splits)

lemma task_unfold:
  "task h world hosts w i u =
     (if i < length hosts then
        ([Start w i u (hosts ! i)], fst (after_fetch h (world w i) w i),
         snd (after_fetch h (world w i) w i))
      else ([], [Rejected w i], Rejects))"
  by (simp add: task_def split: prod.splits)

lemma task_steps_unfold:
  "task_steps h world hosts w i u =
     (if i < length hosts then Start w i u (hosts ! i) # fst (after_fetch h (world w i) w i)
      else [Rejected w i])"
  by (simp add: task_steps_def task_unfold)

lemma task_settles_unfold:
  "task_settles h world hosts w i u =
     (if i < length hosts then snd (after_fetch h (world w i) w i) else Rejects)"
  by (simp add: task_settles_def task_unfold)

lemma slot_of_task_steps: "e \<in> set (task_steps h world hosts w i u) \<Longrightarrow> slot_of e = Some (w, i)"
  by (auto simp: task_steps_unfold split: if_splits dest: slot_of_after_fetch)

lemma start_in_task_steps:
  "Start w' i' u' p \<in> set (task_steps h world hosts w i u)
     \<longleftrightarrow> w' = w \<and> i' = i \<and> u' = u \<and> i < length hosts \<and> p = hosts ! i"
  using not_start_after_fetch [of "Start w' i' u' p" h "world w i" w i]
  by (auto simp: task_steps_unfold)

text \<open>A task that is fulfilled: what it did, by the way its item went.\<close>

lemma fulfilled_task_steps:
  assumes "task_settles h world hosts w i u = Fulfils"
  shows "i < length hosts"
    and "task_steps h world hosts w i u =
           Start w i u (hosts ! i)
           # (if fetch_out (world w i) = Responds then [CallHandler w i] else [])
           @ (if h \<and> (fetch_out (world w i) = Fails \<or> handler_out (world w i) = Throws)
              then [CallErrorHandler w i] else [])
           @ [ClearTimeout w i, Tick w i,
              (if fetch_out (world w i) = Responds \<and> handler_out (world w i) = Returns
               then LogInfo w i else LogError w i),
              Fulfilled w i]"
proof -
  show l: "i < length hosts" using assms by (auto simp: task_settles_unfold split: if_splits)
  show "task_steps h world hosts w i u =
           Start w i u (hosts ! i)
           # (if fetch_out (world w i) = Responds then [CallHandler w i] else [])
           @ (if h \<and> (fetch_out (world w i) = Fails \<or> handler_out (world w i) = Throws)
              then [CallErrorHandler w i] else [])
           @ [ClearTimeout w i, Tick w i,
              (if fetch_out (world w i) = Responds \<and> handler_out (world w i) = Returns
               then LogInfo w i else LogError w i),
              Fulfilled w i]"
    using assms l
    by (auto simp: task_settles_unfold task_steps_unfold after_fetch_def on_error_def
        split: if_splits call_outcome.splits fetch_outcome.splits prod.splits)
qed

subsection \<open>Waves\<close>

lemma mset_concat_map_append:
  "mset (concat (map (\<lambda>x. f x @ g x) xs)) = mset (concat (map f xs)) + mset (concat (map g xs))"
  by (induction xs) simp_all

text \<open>A wave does the steps of its tasks, each once, in some order.\<close>

lemma mset_wave: "mset (fst (wave h world hosts sched w c)) = mset (wave_steps h world hosts w c)"
proof -
  let ?t = "\<lambda>(i, u). task h world hosts w i u"
  have "wave_steps h world hosts w c
          = concat (map (\<lambda>x. fst (?t x) @ fst (snd (?t x))) (enumerate 0 c))"
    unfolding wave_steps_def task_steps_def
    by (rule arg_cong [where f = concat], rule map_cong) auto
  then show ?thesis
    by (simp add: wave_def Let_def mset_merge_by mset_concat_map_append comp_def)
qed

lemma set_wave: "set (fst (wave h world hosts sched w c)) = set (wave_steps h world hosts w c)"
proof -
  have "set_mset (mset (fst (wave h world hosts sched w c))) = set_mset (mset (wave_steps h world hosts w c))"
    by (simp only: mset_wave)
  then show ?thesis by (simp only: set_mset_mset)
qed

lemma filter_wave:
  "length (filter P (fst (wave h world hosts sched w c)))
     = length (filter P (wave_steps h world hosts w c))"
proof -
  have "size (mset (filter P (fst (wave h world hosts sched w c))))
          = size (mset (filter P (wave_steps h world hosts w c)))"
    by (simp only: mset_filter mset_wave)
  then show ?thesis by (simp only: size_mset)
qed

lemma snd_wave:
  "snd (wave h world hosts sched w c)
     = map (\<lambda>(i, u). task_settles h world hosts w i u) (enumerate 0 c)"
  by (simp add: wave_def Let_def task_settles_def split_def)

lemma in_set_enumerate_0: "(i, u) \<in> set (enumerate 0 c) \<longleftrightarrow> i < length c \<and> u = c ! i"
  by (auto simp: in_set_enumerate_eq)

lemma in_wave_steps:
  "e \<in> set (wave_steps h world hosts w c)
     \<longleftrightarrow> (\<exists>i<length c. e \<in> set (task_steps h world hosts w i (c ! i)))"
proof
  assume "e \<in> set (wave_steps h world hosts w c)"
  then obtain i u where "(i, u) \<in> set (enumerate 0 c)" "e \<in> set (task_steps h world hosts w i u)"
    by (auto simp: wave_steps_def)
  then show "\<exists>i<length c. e \<in> set (task_steps h world hosts w i (c ! i))"
    by (auto simp: in_set_enumerate_0)
next
  assume "\<exists>i<length c. e \<in> set (task_steps h world hosts w i (c ! i))"
  then obtain i where i: "i < length c" "e \<in> set (task_steps h world hosts w i (c ! i))" by blast
  then have "(i, c ! i) \<in> set (enumerate 0 c)" by (simp add: in_set_enumerate_0)
  then show "e \<in> set (wave_steps h world hosts w c)"
    using i(2) unfolding wave_steps_def by force
qed

lemma in_snd_wave:
  "s \<in> set (snd (wave h world hosts sched w c))
     \<longleftrightarrow> (\<exists>i<length c. s = task_settles h world hosts w i (c ! i))"
proof
  assume "s \<in> set (snd (wave h world hosts sched w c))"
  then obtain i u where "(i, u) \<in> set (enumerate 0 c)" "s = task_settles h world hosts w i u"
    by (auto simp: snd_wave)
  then show "\<exists>i<length c. s = task_settles h world hosts w i (c ! i)"
    by (auto simp: in_set_enumerate_0)
next
  assume "\<exists>i<length c. s = task_settles h world hosts w i (c ! i)"
  then obtain i where i: "i < length c" "s = task_settles h world hosts w i (c ! i)" by blast
  then have "(i, c ! i) \<in> set (enumerate 0 c)" by (simp add: in_set_enumerate_0)
  then show "s \<in> set (snd (wave h world hosts sched w c))"
    using i(2) unfolding snd_wave by force
qed

lemma wave_slot: "e \<in> set (fst (wave h world hosts sched w c)) \<Longrightarrow> \<exists>i<length c. slot_of e = Some (w, i)"
  by (auto simp: set_wave in_wave_steps dest: slot_of_task_steps)





subsection \<open>Runs\<close>

lemma all_steps_Nil: "all_steps h world hosts w0 [] = []"
  by (simp add: all_steps_def)

lemma all_steps_Cons:
  "all_steps h world hosts w0 (c # cs) = wave_steps h world hosts w0 c @ all_steps h world hosts (Suc w0) cs"
  by (simp add: all_steps_def)

lemma run_waves_Cons:
  "run_waves h world hosts sched w (c # cs) =
     (if Rejects \<in> set (snd (wave h world hosts (sched w) w c))
      then (fst (wave h world hosts (sched w) w c), Aborted)
      else if Pending \<in> set (snd (wave h world hosts (sched w) w c))
      then (fst (wave h world hosts (sched w) w c), Hung)
      else (fst (wave h world hosts (sched w) w c) @ fst (run_waves h world hosts sched (Suc w) cs),
            snd (run_waves h world hosts sched (Suc w) cs)))"
  by (simp split: prod.splits)

declare run_waves.simps(2) [simp del]

lemma settled_cases: "s \<noteq> Rejects \<Longrightarrow> s \<noteq> Pending \<Longrightarrow> s = Fulfils"
  by (cases s) simp_all

lemma run_waves_steps_subset:
  "set (fst (run_waves h world hosts sched w0 cs)) \<subseteq> set (all_steps h world hosts w0 cs) \<union> {Done}"
proof (induction cs arbitrary: w0)
  case Nil
  then show ?case by simp
next
  case (Cons c cs)
  show ?case
    using Cons [of "Suc w0"]
    by (auto simp only: run_waves_Cons all_steps_Cons set_wave set_append fst_conv split: if_splits)
qed

lemma run_waves_completed_mset:
  "snd (run_waves h world hosts sched w0 cs) = Completed
     \<Longrightarrow> mset (fst (run_waves h world hosts sched w0 cs))
           = mset (all_steps h world hosts w0 cs) + {#Done#}"
proof (induction cs arbitrary: w0)
  case Nil
  then show ?case by (simp add: all_steps_Nil)
next
  case (Cons c cs)
  have nr: "Rejects \<notin> set (snd (wave h world hosts (sched w0) w0 c))"
    and np: "Pending \<notin> set (snd (wave h world hosts (sched w0) w0 c))"
    and rest: "snd (run_waves h world hosts sched (Suc w0) cs) = Completed"
    using Cons.prems by (auto simp: run_waves_Cons split: if_splits)
  show ?case
    using Cons.IH [OF rest] nr np
    by (simp add: run_waves_Cons all_steps_Cons mset_wave)
qed

lemma run_waves_completed_fulfils:
  "snd (run_waves h world hosts sched w0 cs) = Completed
     \<Longrightarrow> j < length cs \<Longrightarrow> i < length (cs ! j)
     \<Longrightarrow> task_settles h world hosts (w0 + j) i (cs ! j ! i) = Fulfils"
proof (induction cs arbitrary: w0 j)
  case Nil
  then show ?case by simp
next
  case (Cons c cs)
  have nr: "Rejects \<notin> set (snd (wave h world hosts (sched w0) w0 c))"
    and np: "Pending \<notin> set (snd (wave h world hosts (sched w0) w0 c))"
    and rest: "snd (run_waves h world hosts sched (Suc w0) cs) = Completed"
    using Cons.prems(1) by (auto simp: run_waves_Cons split: if_splits)
  show ?case
  proof (cases j)
    case 0
    then have "i < length c" using Cons.prems(3) by simp
    then have "task_settles h world hosts w0 i (c ! i) \<in> set (snd (wave h world hosts (sched w0) w0 c))"
      by (auto simp: in_snd_wave)
    then have "task_settles h world hosts w0 i (c ! i) = Fulfils"
      using nr np by (intro settled_cases) auto
    then show ?thesis using 0 by simp
  next
    case (Suc k)
    then show ?thesis using Cons.IH [OF rest, of k] Cons.prems(2,3) by simp
  qed
qed

lemma in_all_steps:
  "e \<in> set (all_steps h world hosts w0 cs)
     \<longleftrightarrow> (\<exists>j<length cs. e \<in> set (wave_steps h world hosts (w0 + j) (cs ! j)))"
proof (induction cs arbitrary: w0)
  case Nil
  then show ?case by (simp add: all_steps_Nil)
next
  case (Cons c cs)
  show ?case
  proof
    assume "e \<in> set (all_steps h world hosts w0 (c # cs))"
    then consider "e \<in> set (wave_steps h world hosts w0 c)"
      | "e \<in> set (all_steps h world hosts (Suc w0) cs)"
      by (auto simp: all_steps_Cons)
    then show "\<exists>j<length (c # cs). e \<in> set (wave_steps h world hosts (w0 + j) ((c # cs) ! j))"
    proof cases
      case 1
      then show ?thesis by (intro exI [of _ 0]) simp
    next
      case 2
      then obtain j where "j < length cs" "e \<in> set (wave_steps h world hosts (Suc w0 + j) (cs ! j))"
        using Cons [of "Suc w0"] by blast
      then show ?thesis by (intro exI [of _ "Suc j"]) simp
    qed
  next
    assume "\<exists>j<length (c # cs). e \<in> set (wave_steps h world hosts (w0 + j) ((c # cs) ! j))"
    then obtain j where j: "j < length (c # cs)"
      "e \<in> set (wave_steps h world hosts (w0 + j) ((c # cs) ! j))" by blast
    show "e \<in> set (all_steps h world hosts w0 (c # cs))"
    proof (cases j)
      case 0
      then show ?thesis using j by (simp add: all_steps_Cons)
    next
      case (Suc k)
      then have "k < length cs" "e \<in> set (wave_steps h world hosts (Suc w0 + k) (cs ! k))"
        using j by simp_all
      then have "e \<in> set (all_steps h world hosts (Suc w0) cs)" using Cons [of "Suc w0"] by blast
      then show ?thesis by (simp add: all_steps_Cons)
    qed
  qed
qed



subsection \<open>Completed runs\<close>







section \<open>Claims about the dispatcher\<close>





text \<open>
  Claim C3: for a non-empty proxy list, the waves are the items in input order, cut into
  pieces of the size of the proxy list, the last one holding the rest (never empty); the
  item in slot \<open>i\<close> of wave \<open>w\<close> is the item at position \<open>w * n + i\<close>; every task that a run
  starts carries the item of its wave and slot and goes through the proxy at index of its
  slot; and a completed run has started every one of them.
\<close>

theorem waves_partition_and_assign:
  assumes "proxies swarm \<noteq> []"
  shows "let n = length (proxies swarm);
             cs = chunk urls n;
             tr = fst (run swarm sched world urls has_errorHandler)
         in concat cs = urls
            \<and> (\<forall>w<length cs. length (cs ! w) = (if Suc w < length cs then n else length urls - w * n)
                  \<and> 0 < length (cs ! w) \<and> length (cs ! w) \<le> n)
            \<and> (\<forall>w<length cs. \<forall>i<length (cs ! w). cs ! w ! i = urls ! (w * n + i))
            \<and> (\<forall>w i u p. Start w i u p \<in> set tr
                  \<longrightarrow> w < length cs \<and> i < length (cs ! w) \<and> u = cs ! w ! i \<and> p = proxies swarm ! i)
            \<and> (snd (run swarm sched world urls has_errorHandler) = Completed
                  \<longrightarrow> (\<forall>w<length cs. \<forall>i<length (cs ! w).
                         Start w i (cs ! w ! i) (proxies swarm ! i) \<in> set tr))"
proof -
  define n where "n = length (proxies swarm)"
  define cs where "cs = chunk urls n"
  define tr where "tr = fst (run swarm sched world urls has_errorHandler)"
  have n: "0 < n" using assms by (simp add: n_def)
  have t: "tr = fst (run_waves has_errorHandler world (proxies swarm) sched 0 cs)"
    by (simp add: tr_def run_def cs_def n_def)
  have 1: "concat cs = urls" using n by (simp add: cs_def concat_chunk)
  have 2: "\<forall>w<length cs. length (cs ! w) = (if Suc w < length cs then n else length urls - w * n)
                  \<and> 0 < length (cs ! w) \<and> length (cs ! w) \<le> n"
  proof (intro allI impI)
    fix w assume w: "w < length cs"
    have l: "length (cs ! w) = min n (length urls - w * n)"
      using n w by (simp add: cs_def length_nth_chunk)
    have a: "w * n < length urls" using n w by (simp add: cs_def chunk_index_iff)
    have b: "Suc w < length cs \<longleftrightarrow> n + w * n < length urls"
      using n chunk_index_iff [of n "Suc w" urls] by (simp add: cs_def)
    show "length (cs ! w) = (if Suc w < length cs then n else length urls - w * n)
                  \<and> 0 < length (cs ! w) \<and> length (cs ! w) \<le> n"
      using l a b n by auto
  qed
  have 3: "\<forall>w<length cs. \<forall>i<length (cs ! w). cs ! w ! i = urls ! (w * n + i)"
    using n by (simp add: cs_def nth_nth_chunk)
  have 4: "\<forall>w i u p. Start w i u p \<in> set tr
                  \<longrightarrow> w < length cs \<and> i < length (cs ! w) \<and> u = cs ! w ! i \<and> p = proxies swarm ! i"
  proof (intro allI impI)
    fix w i u p assume "Start w i u p \<in> set tr"
    then have "Start w i u p \<in> set (all_steps has_errorHandler world (proxies swarm) 0 cs)"
      using run_waves_steps_subset [of has_errorHandler world "proxies swarm" sched 0 cs]
      unfolding t by auto
    then obtain j where j: "j < length cs"
      "Start w i u p \<in> set (wave_steps has_errorHandler world (proxies swarm) j (cs ! j))"
      by (auto simp: in_all_steps)
    then obtain i' where i': "i' < length (cs ! j)"
      "Start w i u p \<in> set (task_steps has_errorHandler world (proxies swarm) j i' (cs ! j ! i'))"
      by (auto simp: in_wave_steps)
    then show "w < length cs \<and> i < length (cs ! w) \<and> u = cs ! w ! i \<and> p = proxies swarm ! i"
      using j(1) by (simp add: start_in_task_steps)
  qed
  have 5: "snd (run swarm sched world urls has_errorHandler) = Completed
                  \<longrightarrow> (\<forall>w<length cs. \<forall>i<length (cs ! w).
                         Start w i (cs ! w ! i) (proxies swarm ! i) \<in> set tr)"
  proof (intro allI impI)
    fix w i assume c: "snd (run swarm sched world urls has_errorHandler) = Completed"
      and w: "w < length cs" and i: "i < length (cs ! w)"
    have c': "snd (run_waves has_errorHandler world (proxies swarm) sched 0 cs) = Completed"
      using c by (simp add: run_def cs_def n_def)
    have "task_settles has_errorHandler world (proxies swarm) w i (cs ! w ! i) = Fulfils"
      using run_waves_completed_fulfils [OF c' w i] by simp
    then have "i < length (proxies swarm)" by (rule fulfilled_task_steps(1))
    then have "Start w i (cs ! w ! i) (proxies swarm ! i)
        \<in> set (task_steps has_errorHandler world (proxies swarm) w i (cs ! w ! i))"
      by (simp add: start_in_task_steps)
    then have "Start w i (cs ! w ! i) (proxies swarm ! i)
        \<in> set (all_steps has_errorHandler world (proxies swarm) 0 cs)"
      using w i by (auto simp: in_all_steps in_wave_steps)
    then have "Start w i (cs ! w ! i) (proxies swarm ! i)
        \<in># mset (fst (run_waves has_errorHandler world (proxies swarm) sched 0 cs))"
      by (simp add: run_waves_completed_mset [OF c'])
    then show "Start w i (cs ! w ! i) (proxies swarm ! i) \<in> set tr"
      by (simp add: t)
  qed
  show ?thesis
    unfolding Let_def n_def [symmetric] cs_def [symmetric] tr_def [symmetric]
    using 1 2 3 4 5 by blast
qed

text \<open>
  The example of the claim: items \<open>u1, u2, u3\<close> over proxies \<open>p1, p2\<close> give the waves
  \<open>[u1, u2]\<close> and \<open>[u3]\<close>, with \<open>u1\<close> through \<open>p1\<close>, \<open>u2\<close> through \<open>p2\<close> and \<open>u3\<close> through \<open>p1\<close>.
\<close>

theorem waves_partition_and_assign_witness:
  "chunk urls_example (length (proxies swarm_example)) = [[''u1'', ''u2''], [''u3'']]
   \<and> proxies swarm_example = [''p1'', ''p2'']
   \<and> Start 0 0 ''u1'' ''p1'' \<in> set (fst (run swarm_example sched_example world_ok urls_example True))
   \<and> Start 0 1 ''u2'' ''p2'' \<in> set (fst (run swarm_example sched_example world_ok urls_example True))
   \<and> Start 1 0 ''u3'' ''p1'' \<in> set (fst (run swarm_example sched_example world_ok urls_example True))"
proof -
  have p: "proxies swarm_example = [''p1'', ''p2'']"
    by (simp add: swarm_example_def new_ProxySwarm_def)
  then have h: "proxies swarm_example \<noteq> []" by simp
  have c: "chunk urls_example (length (proxies swarm_example)) = [[''u1'', ''u2''], [''u3'']]"
    unfolding p by code_simp
  have r: "snd (run swarm_example sched_example world_ok urls_example True) = Completed"
    by code_simp
  have a: "\<forall>w<length [[''u1'', ''u2''], [''u3'']]. \<forall>i<length ([[''u1'', ''u2''], [''u3'']] ! w).
          Start w i ([[''u1'', ''u2''], [''u3'']] ! w ! i) ([''p1'', ''p2''] ! i)
            \<in> set (fst (run swarm_example sched_example world_ok urls_example True))"
    using waves_partition_and_assign [OF h, of urls_example sched_example world_ok True] r
    unfolding Let_def c unfolding p by blast
  have "Start 0 0 ''u1'' ''p1'' \<in> set (fst (run swarm_example sched_example world_ok urls_example True))"
    using a [rule_format, of 0 0] by simp
  moreover
  have "Start 0 1 ''u2'' ''p2'' \<in> set (fst (run swarm_example sched_example world_ok urls_example True))"
    using a [rule_format, of 0 1] by simp
  moreover
  have "Start 1 0 ''u3'' ''p1'' \<in> set (fst (run swarm_example sched_example world_ok urls_example True))"
    using a [rule_format, of 1 0] by simp
  ultimately show ?thesis using c p by simp
qed


subsection \<open>The barrier between waves\<close>

lemma fulfilled_in_wave:
  assumes "Rejects \<notin> set (snd (wave h world hosts sched w c))"
    and "Pending \<notin> set (snd (wave h world hosts sched w c))"
    and "i < length c"
  shows "Fulfilled w i \<in> set (fst (wave h world hosts sched w c))"
proof -
  have "task_settles h world hosts w i (c ! i) \<in> set (snd (wave h world hosts sched w c))"
    using assms(3) by (auto simp: in_snd_wave)
  then have "task_settles h world hosts w i (c ! i) = Fulfils"
    using assms(1,2) by (intro settled_cases) auto
  then have "Fulfilled w i \<in> set (task_steps h world hosts w i (c ! i))"
    by (simp add: fulfilled_task_steps(2))
  then show ?thesis using assms(3) by (auto simp: set_wave in_wave_steps)
qed

lemma run_waves_barrier:
  "j < length (fst (run_waves h world hosts sched w0 cs))
     \<Longrightarrow> fst (run_waves h world hosts sched w0 cs) ! j = Start w' i' u p
     \<Longrightarrow> w0 \<le> w \<Longrightarrow> w < w' \<Longrightarrow> i < length (cs ! (w - w0))
     \<Longrightarrow> Fulfilled w i \<in> set (take j (fst (run_waves h world hosts sched w0 cs)))"
proof (induction cs arbitrary: w0 j)
  case Nil
  then show ?case by simp
next
  case (Cons c cs)
  let ?W = "fst (wave h world hosts (sched w0) w0 c)"
  let ?S = "snd (wave h world hosts (sched w0) w0 c)"
  let ?R = "fst (run_waves h world hosts sched (Suc w0) cs)"
  have not_here: False if "j < length ?W" "?W ! j = Start w' i' u p" for j
  proof -
    have "Start w' i' u p \<in> set ?W" using that by (metis nth_mem)
    then obtain k where "slot_of (Start w' i' u p) = Some (w0, k)" using wave_slot by blast
    then show False using Cons.prems(3,4) by simp
  qed
  show ?case
  proof (cases "Rejects \<in> set ?S \<or> Pending \<in> set ?S")
    case True
    then have "fst (run_waves h world hosts sched w0 (c # cs)) = ?W"
      by (auto simp: run_waves_Cons)
    then have "j < length ?W" "?W ! j = Start w' i' u p" using Cons.prems(1,2) by simp_all
    then show ?thesis using not_here by blast
  next
    case False
    then have tr: "fst (run_waves h world hosts sched w0 (c # cs)) = ?W @ ?R"
      by (simp add: run_waves_Cons)
    have ge: "length ?W \<le> j" using Cons.prems(1,2) not_here [of j] unfolding tr
      by (cases "j < length ?W") (simp_all add: nth_append)
    then have j': "j - length ?W < length ?R" and s: "?R ! (j - length ?W) = Start w' i' u p"
      using Cons.prems(1,2) unfolding tr by (simp_all add: nth_append)
    have tk: "take j (?W @ ?R) = ?W @ take (j - length ?W) ?R" using ge by simp
    show ?thesis
    proof (cases "w = w0")
      case True
      then have "i < length c" using Cons.prems(5) by simp
      then have "Fulfilled w0 i \<in> set ?W" using False by (intro fulfilled_in_wave) auto
      then show ?thesis unfolding tr tk using True by simp
    next
      case b: False
      then have "Suc w0 \<le> w" "i < length (cs ! (w - Suc w0))"
        using Cons.prems(3,5) by (auto simp: Suc_diff_le nth_Cons')
      then have "Fulfilled w i \<in> set (take (j - length ?W) ?R)"
        using Cons.IH [OF j' s _ Cons.prems(4)] by simp
      then show ?thesis unfolding tr tk by simp
    qed
  qed
qed

text \<open>
  Claim C4: in every run, under every schedule, when a task of a wave starts, every task of
  every earlier wave has settled: its promise has been fulfilled (the item succeeded, or
  failed and was reported) at an earlier position of the run. A task that is rejected or
  never settles stops the loop, so no later wave starts after it.
\<close>

theorem wave_barrier:
  assumes "j < length (fst (run swarm sched world urls has_errorHandler))"
    and "fst (run swarm sched world urls has_errorHandler) ! j = Start w' i' u p"
    and "w < w'"
    and "i < length (chunk urls (length (proxies swarm)) ! w)"
  shows "Fulfilled w i \<in> set (take j (fst (run swarm sched world urls has_errorHandler)))"
  using run_waves_barrier [of j has_errorHandler world "proxies swarm" sched 0
      "chunk urls (length (proxies swarm))" w' i' u p w i] assms
  by (simp add: run_def)

text \<open>
  Three items over two proxies: the task of the second wave starts at position 12, after
  both tasks of the first wave were fulfilled.
\<close>

theorem wave_barrier_witness:
  "fst (run swarm_example sched_example world_ok urls_example True) ! 12 = Start 1 0 ''u3'' ''p1''
   \<and> length (chunk urls_example (length (proxies swarm_example)) ! 0) = 2
   \<and> Fulfilled 0 0 \<in> set (take 12 (fst (run swarm_example sched_example world_ok urls_example True)))
   \<and> Fulfilled 0 1 \<in> set (take 12 (fst (run swarm_example sched_example world_ok urls_example True)))"
proof -
  let ?tr = "fst (run swarm_example sched_example world_ok urls_example True)"
  have j: "12 < length ?tr" by code_simp
  have s: "?tr ! 12 = Start 1 0 ''u3'' ''p1''" by code_simp
  have l: "length (chunk urls_example (length (proxies swarm_example)) ! 0) = 2" by code_simp
  have i0: "0 < length (chunk urls_example (length (proxies swarm_example)) ! 0)"
    and i1: "1 < length (chunk urls_example (length (proxies swarm_example)) ! 0)"
    using l by simp_all
  have w: "(0 :: nat) < 1" by simp
  show ?thesis
    using wave_barrier [OF j s w i0] wave_barrier [OF j s w i1] s l by simp
qed

subsection \<open>What a run owes to one item\<close>










section \<open>Properties of the readiness gate\<close>

lemma in_gate_pass:
  "e \<in> set (fst (gate_pass probe sched hosts n running))
     \<longleftrightarrow> (\<exists>i<length hosts. hosts ! i \<notin> running
            \<and> (e = Probe n (hosts ! i)
                \<or> (probe n i \<and> (e = Answered n (hosts ! i) \<or> e = LogReady (hosts ! i)))
                \<or> (\<not> probe n i \<and> e = Refused n (hosts ! i))))"
  (is "?L \<longleftrightarrow> ?R")
proof -
  define pending where "pending = filter (\<lambda>(i, p). p \<notin> running) (enumerate 0 hosts)"
  define f where "f = (\<lambda>(i :: nat, p). Probe n p)"
  define g where "g = (\<lambda>(i, p). if probe n i then [Answered n p, LogReady p] else [Refused n p])"
  have pd: "x \<in> set pending \<longleftrightarrow> (\<exists>i<length hosts. hosts ! i \<notin> running \<and> x = (i, hosts ! i))" for x
    by (cases x) (auto simp: pending_def in_set_enumerate_0)
  have "fst (gate_pass probe sched hosts n running) = map f pending @ merge_by sched (map g pending)"
    by (simp add: gate_pass_def Let_def pending_def f_def g_def)
  then have "?L \<longleftrightarrow> (\<exists>x\<in>set pending. e = f x \<or> e \<in> set (g x))"
    by (auto simp: set_merge_by)
  also have "\<dots> \<longleftrightarrow> (\<exists>i<length hosts. hosts ! i \<notin> running
      \<and> (e = f (i, hosts ! i) \<or> e \<in> set (g (i, hosts ! i))))"
    unfolding Bex_def pd by blast
  also have "\<dots> \<longleftrightarrow> ?R"
    by (rule ex_cong) (auto simp: f_def g_def)
  finally show ?thesis .
qed

lemma gate_pass_running:
  "p \<in> snd (gate_pass probe sched hosts n running)
     \<longleftrightarrow> p \<in> running \<or> (\<exists>i<length hosts. hosts ! i \<notin> running \<and> probe n i \<and> p = hosts ! i)"
proof -
  define pending where "pending = filter (\<lambda>(i, p). p \<notin> running) (enumerate 0 hosts)"
  have pd: "x \<in> set pending \<longleftrightarrow> (\<exists>i<length hosts. hosts ! i \<notin> running \<and> x = (i, hosts ! i))" for x
    by (cases x) (auto simp: pending_def in_set_enumerate_0)
  have "snd (gate_pass probe sched hosts n running)
          = running \<union> snd ` {x \<in> set pending. probe n (fst x)}"
    by (auto simp: gate_pass_def Let_def pending_def split_def)
  then have "p \<in> snd (gate_pass probe sched hosts n running)
      \<longleftrightarrow> p \<in> running \<or> (\<exists>x\<in>set pending. probe n (fst x) \<and> p = snd x)"
    by auto
  also have "\<dots> \<longleftrightarrow> p \<in> running
      \<or> (\<exists>i<length hosts. hosts ! i \<notin> running \<and> probe n i \<and> p = hosts ! i)"
    unfolding Bex_def pd by auto
  finally show ?thesis .
qed

lemma wait_loop_done:
  "\<not> card running < length hosts \<Longrightarrow> wait_loop fuel probe sched hosts n running = Some []"
  by (simp add: wait_loop.simps)

lemma wait_loop_step:
  "card running < length hosts \<Longrightarrow>
   wait_loop (Suc fuel) probe sched hosts n running
     = map_option (\<lambda>rest. fst (gate_pass probe (sched n) hosts n running)
                            @ Sleep PING_INTERVAL_MS # rest)
         (wait_loop fuel probe sched hosts (Suc n) (snd (gate_pass probe (sched n) hosts n running)))"
  by (subst wait_loop.simps) (simp split: prod.splits)

lemma wait_loop_out_of_fuel:
  "card running < length hosts \<Longrightarrow> wait_loop 0 probe sched hosts n running = None"
  by (simp add: wait_loop.simps)

text \<open>The way a pass of the loop that has returned looks.\<close>

lemma wait_loop_Some_cases:
  assumes "wait_loop fuel probe sched hosts n running = Some tr"
  obtains (stop) "\<not> card running < length hosts" "tr = []"
  | (pass) fuel' rest where "card running < length hosts" "fuel = Suc fuel'"
      "wait_loop fuel' probe sched hosts (Suc n) (snd (gate_pass probe (sched n) hosts n running)) = Some rest"
      "tr = fst (gate_pass probe (sched n) hosts n running) @ Sleep PING_INTERVAL_MS # rest"
proof (cases "card running < length hosts")
  case False
  then show ?thesis using assms stop by (simp add: wait_loop_done)
next
  case True
  show ?thesis
  proof (cases fuel)
    case 0
    then show ?thesis using assms True by (simp add: wait_loop_out_of_fuel)
  next
    case (Suc fuel')
    then show ?thesis using assms True pass [of fuel'] by (auto simp: wait_loop_step)
  qed
qed

lemma all_ready:
  assumes "running \<subseteq> set hosts" and "\<not> card running < length hosts"
  shows "running = set hosts" and "distinct hosts"
proof -
  have "card (set hosts) \<le> length hosts" by (rule card_length)
  moreover have "card running \<le> card (set hosts)" using assms(1) by (simp add: card_mono)
  ultimately have c: "card running = card (set hosts)" "card (set hosts) = length hosts"
    using assms(2) by simp_all
  show "running = set hosts" using assms(1) c(1) by (simp add: card_subset_eq)
  show "distinct hosts" using c(2) by (simp add: card_distinct)
qed

lemma gate_pass_subset:
  "running \<subseteq> set hosts \<Longrightarrow> snd (gate_pass probe sched hosts n running) \<subseteq> set hosts"
  by (auto simp: gate_pass_running)

lemma gate_pass_mono: "running \<subseteq> snd (gate_pass probe sched hosts n running)"
  by (auto simp: gate_pass_running)

lemma wait_loop_answered:
  "wait_loop fuel probe sched hosts n running = Some tr \<Longrightarrow> running \<subseteq> set hosts
     \<Longrightarrow> p \<in> set hosts \<Longrightarrow> p \<in> running \<or> (\<exists>m. Answered m p \<in> set tr)"
proof (induction fuel arbitrary: n running tr)
  case 0
  from "0.prems"(1) show ?case
  proof (cases rule: wait_loop_Some_cases)
    case stop
    then show ?thesis using "0.prems" all_ready(1) by blast
  next
    case (pass fuel' rest)
    then show ?thesis by simp
  qed
next
  case (Suc fuel)
  from Suc.prems(1) show ?case
  proof (cases rule: wait_loop_Some_cases)
    case stop
    then show ?thesis using Suc.prems all_ready(1) by blast
  next
    case (pass fuel' rest)
    let ?running' = "snd (gate_pass probe (sched n) hosts n running)"
    have "p \<in> ?running' \<or> (\<exists>m. Answered m p \<in> set rest)"
      using Suc.IH [of "Suc n" ?running' rest] pass(2,3) Suc.prems(2,3)
      by (simp add: gate_pass_subset)
    then show ?thesis
      unfolding pass(4) by (auto simp: gate_pass_running in_gate_pass)
  qed
qed

lemma wait_loop_distinct:
  "wait_loop fuel probe sched hosts n running = Some tr \<Longrightarrow> running \<subseteq> set hosts
     \<Longrightarrow> distinct hosts"
proof (induction fuel arbitrary: n running tr)
  case 0
  from "0.prems"(1) show ?case
  proof (cases rule: wait_loop_Some_cases)
    case stop
    then show ?thesis using "0.prems" all_ready(2) by blast
  next
    case (pass fuel' rest)
    then show ?thesis by simp
  qed
next
  case (Suc fuel)
  from Suc.prems(1) show ?case
  proof (cases rule: wait_loop_Some_cases)
    case stop
    then show ?thesis using Suc.prems all_ready(2) by blast
  next
    case (pass fuel' rest)
    then show ?thesis
      using Suc.IH [of "Suc n" "snd (gate_pass probe (sched n) hosts n running)" rest] Suc.prems(2)
      by (simp add: gate_pass_subset)
  qed
qed

lemma pass_of_in_gate_pass:
  "e \<in> set (fst (gate_pass probe sched hosts n running)) \<Longrightarrow> pass_of e = Some k \<Longrightarrow> k = n"
  by (auto simp: in_gate_pass)

lemma sleep_not_in_gate_pass: "Sleep ms \<notin> set (fst (gate_pass probe sched hosts n running))"
  by (auto simp: in_gate_pass)

lemma wait_loop_sleeps:
  "wait_loop fuel probe sched hosts n running = Some tr \<Longrightarrow> Sleep ms \<in> set tr
     \<Longrightarrow> ms = PING_INTERVAL_MS"
proof (induction fuel arbitrary: n running tr)
  case 0
  from "0.prems"(1) show ?case
    by (cases rule: wait_loop_Some_cases) (use "0.prems"(2) in simp_all)
next
  case (Suc fuel)
  from Suc.prems(1) show ?case
  proof (cases rule: wait_loop_Some_cases)
    case stop
    then show ?thesis using Suc.prems(2) by simp
  next
    case (pass fuel' rest)
    then show ?thesis
      using Suc.IH [of "Suc n" "snd (gate_pass probe (sched n) hosts n running)" rest] Suc.prems(2)
      by (auto simp: sleep_not_in_gate_pass)
  qed
qed

lemma wait_loop_retry:
  "wait_loop fuel probe sched hosts n running = Some tr \<Longrightarrow> running \<subseteq> set hosts
     \<Longrightarrow> Refused m p \<in> set tr \<Longrightarrow> Probe (Suc m) p \<in> set tr"
proof (induction fuel arbitrary: n running tr)
  case 0
  from "0.prems"(1) show ?case
    by (cases rule: wait_loop_Some_cases) (use "0.prems"(3) in simp_all)
next
  case (Suc fuel)
  have d: "distinct hosts" using Suc.prems(1,2) by (rule wait_loop_distinct)
  from Suc.prems(1) show ?case
  proof (cases rule: wait_loop_Some_cases)
    case stop
    then show ?thesis using Suc.prems(3) by simp
  next
    case (pass fuel' rest)
    let ?evs = "fst (gate_pass probe (sched n) hosts n running)"
    let ?running' = "snd (gate_pass probe (sched n) hosts n running)"
    have sub: "?running' \<subseteq> set hosts" using Suc.prems(2) by (rule gate_pass_subset)
    have f: "fuel' = fuel" using pass(2) by simp
    show ?thesis
    proof (cases "Refused m p \<in> set ?evs")
      case True
      then obtain i where i: "i < length hosts" "hosts ! i \<notin> running" "\<not> probe n i"
        and mp: "m = n" "p = hosts ! i"
        by (auto simp: in_gate_pass)
      have np: "p \<notin> ?running'"
      proof
        assume "p \<in> ?running'"
        then obtain i' where "i' < length hosts" "probe n i'" "p = hosts ! i'"
          using i(2) mp(2) by (auto simp: gate_pass_running)
        then have "i' = i" using d i(1) mp(2) by (simp add: nth_eq_iff_index_eq)
        then show False using \<open>probe n i'\<close> i(3) by simp
      qed
      from pass(3) have "Probe (Suc n) p \<in> set rest"
      proof (cases rule: wait_loop_Some_cases)
        case stop
        then have "?running' = set hosts" using sub all_ready(1) by blast
        then show ?thesis using np i(1) mp(2) by simp
      next
        case (pass fuel'' rest')
        have "Probe (Suc n) p \<in> set (fst (gate_pass probe (sched (Suc n)) hosts (Suc n) ?running'))"
          using i(1) mp(2) np by (auto simp: in_gate_pass)
        then show ?thesis unfolding pass(4) by simp
      qed
      then show ?thesis unfolding pass(4) mp(1) by simp
    next
      case False
      then have "Refused m p \<in> set rest" using Suc.prems(3) unfolding pass(4) by simp
      then have "Probe (Suc m) p \<in> set rest"
        using Suc.IH [of "Suc n" ?running' rest] pass(3) sub f by simp
      then show ?thesis unfolding pass(4) by simp
    qed
  qed
qed

lemma wait_loop_sleep_between:
  "wait_loop fuel probe sched hosts n running = Some tr
     \<Longrightarrow> a < b \<Longrightarrow> b < length tr
     \<Longrightarrow> pass_of (tr ! a) = Some m \<Longrightarrow> pass_of (tr ! b) = Some m' \<Longrightarrow> m < m'
     \<Longrightarrow> \<exists>c. a < c \<and> c < b \<and> tr ! c = Sleep PING_INTERVAL_MS"
proof (induction fuel arbitrary: n running tr a b)
  case 0
  from "0.prems"(1) show ?case
    by (cases rule: wait_loop_Some_cases) (use "0.prems"(3) in simp_all)
next
  case (Suc fuel)
  from Suc.prems(1) show ?case
  proof (cases rule: wait_loop_Some_cases)
    case stop
    then show ?thesis using Suc.prems(3) by simp
  next
    case (pass fuel' rest)
    let ?evs = "fst (gate_pass probe (sched n) hosts n running)"
    let ?running' = "snd (gate_pass probe (sched n) hosts n running)"
    let ?L = "length ?evs"
    have f: "fuel' = fuel" using pass(2) by simp
    have here: "k = n" if "j < ?L" "pass_of (tr ! j) = Some k" for j k
    proof -
      have "tr ! j = ?evs ! j" using that(1) unfolding pass(4) by (simp add: nth_append)
      then have "tr ! j \<in> set ?evs" using that(1) by simp
      then show ?thesis using that(2) by (rule pass_of_in_gate_pass)
    qed
    have at: "tr ! ?L = Sleep PING_INTERVAL_MS" unfolding pass(4) by simp
    have after: "tr ! j = rest ! (j - Suc ?L)" if "?L < j" for j
      using that unfolding pass(4) by (simp add: nth_append nth_Cons')
    have len: "length tr = Suc (?L + length rest)" unfolding pass(4) by simp
    have b: "?L < b"
    proof (rule ccontr)
      assume "\<not> ?L < b"
      then consider "b < ?L" | "b = ?L" by linarith
      then show False
      proof cases
        case 1
        then have "m' = n" "m = n" using here [of b m'] here [of a m] Suc.prems(2,4,5) by simp_all
        then show False using Suc.prems(6) by simp
      next
        case 2
        then show False using Suc.prems(5) at by simp
      qed
    qed
    consider "a < ?L" | "a = ?L" | "?L < a" by linarith
    then show ?thesis
    proof cases
      case 1
      then show ?thesis using b at by blast
    next
      case 2
      then show ?thesis using Suc.prems(4) at by simp
    next
      case 3
      have "\<exists>c. a - Suc ?L < c \<and> c < b - Suc ?L \<and> rest ! c = Sleep PING_INTERVAL_MS"
      proof (rule Suc.IH [of "Suc n" ?running' rest "a - Suc ?L" "b - Suc ?L"])
        show "wait_loop fuel probe sched hosts (Suc n) ?running' = Some rest" using pass(3) f by simp
        show "a - Suc ?L < b - Suc ?L" using 3 Suc.prems(2) by linarith
        show "b - Suc ?L < length rest" using b Suc.prems(3) len by linarith
        show "pass_of (rest ! (a - Suc ?L)) = Some m" using after [OF 3] Suc.prems(4) by simp
        show "pass_of (rest ! (b - Suc ?L)) = Some m'" using after [OF b] Suc.prems(5) by simp
        show "m < m'" by (rule Suc.prems(6))
      qed
      then obtain c where c: "a - Suc ?L < c" "c < b - Suc ?L" "rest ! c = Sleep PING_INTERVAL_MS"
        by blast
      have "?L < c + Suc ?L" by simp
      then have "tr ! (c + Suc ?L) = Sleep PING_INTERVAL_MS" using after [of "c + Suc ?L"] c(3) by simp
      moreover have "a < c + Suc ?L" "c + Suc ?L < b" using c(1,2) 3 b by linarith+
      ultimately show ?thesis by blast
    qed
  qed
qed

text \<open>
  \<open>running\<close> is a set of host names and is compared with the length of the list: a gate
  that returns was given a list without repetition.
\<close>

lemma gate_returns_distinct:
  "waitForProxiesReady fuel probe sched swarm = Some tr \<Longrightarrow> distinct (proxies swarm)"
  by (auto simp: waitForProxiesReady_def dest: wait_loop_distinct)

text \<open>
  Claim C5: when the readiness gate returns, every endpoint of the proxy list has answered a
  probe; a probe that was refused raised nothing and the endpoint was probed again in the
  next pass; between any probe event of one pass and any probe event of a later pass the
  loop slept, and every sleep of the loop lasts 1000 ms.
\<close>

theorem readiness_gate:
  assumes "waitForProxiesReady fuel probe sched swarm = Some tr"
  shows "(\<forall>p\<in>set (proxies swarm). \<exists>n. Answered n p \<in> set tr)
         \<and> (\<forall>n p. Refused n p \<in> set tr \<longrightarrow> Probe (Suc n) p \<in> set tr)
         \<and> (\<forall>a b m m'. a < b \<and> b < length tr
                \<and> pass_of (tr ! a) = Some m \<and> pass_of (tr ! b) = Some m' \<and> m < m'
                \<longrightarrow> (\<exists>c. a < c \<and> c < b \<and> tr ! c = Sleep 1000))
         \<and> (\<forall>ms. Sleep ms \<in> set tr \<longrightarrow> ms = 1000)"
proof -
  obtain tr0 where l: "wait_loop fuel probe sched (proxies swarm) 0 {} = Some tr0"
    and tr: "tr = LogWaiting # tr0"
    using assms by (auto simp: waitForProxiesReady_def)
  have 1: "\<forall>p\<in>set (proxies swarm). \<exists>n. Answered n p \<in> set tr"
    using wait_loop_answered [OF l] by (auto simp: tr)
  have 2: "\<forall>n p. Refused n p \<in> set tr \<longrightarrow> Probe (Suc n) p \<in> set tr"
    using wait_loop_retry [OF l] by (auto simp: tr)
  have 3: "\<forall>a b m m'. a < b \<and> b < length tr
                \<and> pass_of (tr ! a) = Some m \<and> pass_of (tr ! b) = Some m' \<and> m < m'
                \<longrightarrow> (\<exists>c. a < c \<and> c < b \<and> tr ! c = Sleep 1000)"
  proof (intro allI impI, elim conjE)
    fix a b m m'
    assume ab: "a < b" "b < length tr" and pa: "pass_of (tr ! a) = Some m"
      and pb: "pass_of (tr ! b) = Some m'" and mm: "m < m'"
    have a0: "0 < a" using pa by (cases a) (simp_all add: tr)
    then have b0: "0 < b" using ab(1) by simp
    have "\<exists>c. a - 1 < c \<and> c < b - 1 \<and> tr0 ! c = Sleep PING_INTERVAL_MS"
    proof (rule wait_loop_sleep_between [OF l])
      show "a - 1 < b - 1" using a0 ab(1) by simp
      show "b - 1 < length tr0" using b0 ab(2) by (simp add: tr)
      show "pass_of (tr0 ! (a - 1)) = Some m" using a0 pa by (simp add: tr nth_Cons')
      show "pass_of (tr0 ! (b - 1)) = Some m'" using b0 pb by (simp add: tr nth_Cons')
      show "m < m'" by (rule mm)
    qed
    then obtain c where c: "a - 1 < c" "c < b - 1" "tr0 ! c = Sleep PING_INTERVAL_MS" by blast
    have "tr ! Suc c = Sleep 1000" using c(3) by (simp add: tr PING_INTERVAL_MS_def)
    moreover have "a < Suc c" "Suc c < b" using c(1,2) by linarith+
    ultimately show "\<exists>c. a < c \<and> c < b \<and> tr ! c = Sleep 1000" by blast
  qed
  have 4: "\<forall>ms. Sleep ms \<in> set tr \<longrightarrow> ms = 1000"
    using wait_loop_sleeps [OF l] by (auto simp: tr PING_INTERVAL_MS_def)
  show ?thesis using 1 2 3 4 by blast
qed

text \<open>
  The scenario of the specification: the first endpoint answers at once and the second only
  in the third pass. The gate returns after three passes; the second endpoint is refused
  in the passes 0 and 1, probed again in the passes 1 and 2, and a sleep of 1000 ms lies
  between its refusal in pass 0 and its next probe.
\<close>

theorem readiness_gate_witness:
  "waitForProxiesReady 3 probe_example gate_sched_example swarm_example = Some gate_trace_example
   \<and> proxies swarm_example = [''p1'', ''p2'']
   \<and> (\<exists>n. Answered n ''p1'' \<in> set gate_trace_example)
   \<and> (\<exists>n. Answered n ''p2'' \<in> set gate_trace_example)
   \<and> Refused 0 ''p2'' \<in> set gate_trace_example
   \<and> Probe 1 ''p2'' \<in> set gate_trace_example
   \<and> Refused 1 ''p2'' \<in> set gate_trace_example
   \<and> Probe 2 ''p2'' \<in> set gate_trace_example
   \<and> gate_trace_example ! 3 = Refused 0 ''p2''
   \<and> gate_trace_example ! 7 = Probe 1 ''p2''
   \<and> (\<exists>c. 3 < c \<and> c < 7 \<and> gate_trace_example ! c = Sleep 1000)"
proof -
  have g: "waitForProxiesReady 3 probe_example gate_sched_example swarm_example = Some gate_trace_example"
    by code_simp
  have p: "proxies swarm_example = [''p1'', ''p2'']"
    by (simp add: swarm_example_def new_ProxySwarm_def)
  note t = readiness_gate [OF g]
  have a: "\<forall>p\<in>set (proxies swarm_example). \<exists>n. Answered n p \<in> set gate_trace_example"
    using t by blast
  have r: "\<forall>n p. Refused n p \<in> set gate_trace_example \<longrightarrow> Probe (Suc n) p \<in> set gate_trace_example"
    using t by blast
  have s: "\<forall>a b m m'. a < b \<and> b < length gate_trace_example
                \<and> pass_of (gate_trace_example ! a) = Some m
                \<and> pass_of (gate_trace_example ! b) = Some m' \<and> m < m'
                \<longrightarrow> (\<exists>c. a < c \<and> c < b \<and> gate_trace_example ! c = Sleep 1000)"
    using t by blast
  have r0: "Refused 0 ''p2'' \<in> set gate_trace_example"
    and r1: "Refused 1 ''p2'' \<in> set gate_trace_example"
    and n3: "gate_trace_example ! 3 = Refused 0 ''p2''"
    and n7: "gate_trace_example ! 7 = Probe 1 ''p2''"
    and len: "length gate_trace_example = 14"
    by (simp_all add: gate_trace_example_def)
  have p1: "Probe 1 ''p2'' \<in> set gate_trace_example" using r r0 by force
  have p2: "Probe 2 ''p2'' \<in> set gate_trace_example"
    using r [rule_format, of 1 "''p2''"] r1 by (simp add: numeral_2_eq_2)
  have b: "\<exists>c. 3 < c \<and> c < 7 \<and> gate_trace_example ! c = Sleep 1000"
    using s [rule_format, of 3 7 0 1] n3 n7 len by simp
  show ?thesis using g p a r0 r1 p1 p2 n3 n7 b by simp
qed

end
